theory Spec2Isabelle
  imports Main "HOL-Library.Word"
begin

chapter \<open>The model\<close>

section \<open>Outcomes of a kernel call\<close>

text \<open>
  A call either returns (\<open>Done\<close>), halts the kernel (\<open>Panic\<close>, with the message the
  source passes to \<open>panic\<close>), busy-waits for a spinlock that is held (\<open>Spin k\<close>, the
  index of the lock) or sleeps on the sleep-lock of a buffer that is held (\<open>Sleep b\<close>).
\<close>

datatype 'a outcome = Done 'a | Panic string | Spin nat | Sleep nat

fun bind :: "'a outcome \<Rightarrow> ('a \<Rightarrow> 'b outcome) \<Rightarrow> 'b outcome" where
  "bind (Done x) f = f x"
| "bind (Panic m) f = Panic m"
| "bind (Spin k) f = Spin k"
| "bind (Sleep b) f = Sleep b"

text \<open>Whether a call returned, and what it returned (\<open>d\<close> when it did not).\<close>

fun is_done :: "'a outcome \<Rightarrow> bool" where
  "is_done (Done x) = True"
| "is_done _ = False"

fun result_or :: "'a \<Rightarrow> 'a outcome \<Rightarrow> 'a" where
  "result_or d (Done x) = x"
| "result_or d _ = d"

section \<open>Spinlocks\<close>

text \<open>
  Modelled from the spec: \<open>spinlock.c\<close> is not among the sources. The spec gives
  spinlocks as busy-wait mutual exclusion, and \<open>holding\<close> as "held by the current
  caller". A lock is the core that holds it, if any; a table of locks is a list.
  \<open>acquire\<close> takes a free lock and waits for a held one.
\<close>

type_synonym spinlock = "nat option"

definition holding :: "nat \<Rightarrow> spinlock \<Rightarrow> bool" where
  "holding cpu lk = (lk = Some cpu)"

definition acquire :: "nat \<Rightarrow> nat \<Rightarrow> spinlock list \<Rightarrow> spinlock list outcome" where
  "acquire cpu k lks = (if lks ! k = None then Done (lks[k := Some cpu]) else Spin k)"

definition release :: "nat \<Rightarrow> spinlock list \<Rightarrow> spinlock list" where
  "release k lks = lks[k := None]"

section \<open>Physical memory\<close>

text \<open>
  Addresses are \<open>uint64\<close>, memory is a map from addresses to bytes. \<open>memset\<close> fills
  the \<open>n\<close> bytes from \<open>pa\<close>; a pointer is stored in eight bytes, least significant
  first (RISC-V).
\<close>

type_synonym addr = "64 word"

type_synonym memory = "addr \<Rightarrow> 8 word"

definition memset :: "memory \<Rightarrow> addr \<Rightarrow> 8 word \<Rightarrow> nat \<Rightarrow> memory" where
  "memset m pa c n = (\<lambda>x. if unat (x - pa) < n then c else m x)"

definition store64 :: "memory \<Rightarrow> addr \<Rightarrow> 64 word \<Rightarrow> memory" where
  "store64 m a v =
     (\<lambda>x. if unat (x - a) < 8 then ucast (drop_bit (8 * unat (x - a)) v) else m x)"

definition load64 :: "memory \<Rightarrow> addr \<Rightarrow> 64 word" where
  "load64 m a =
     word_of_int (horner_sum uint (2 ^ 8) (map (\<lambda>i. m (a + of_nat i)) [0..<8]))"

section \<open>kalloc.c: the page allocator\<close>

text \<open>\<open>PGSIZE\<close> is 4096 (the source's comment on \<open>kalloc\<close>: one 4096-byte page).\<close>

definition PGSIZE :: nat where
  "PGSIZE = 4096"

text \<open>
  \<open>struct kmem\<close>: one lock and one free-list head per core; \<open>0\<close> is the null
  pointer. \<open>struct run\<close> is the first eight bytes of a free page, its \<open>next\<close>.
  \<open>push_off\<close> and \<open>pop_off\<close> (interrupts on the calling core) have no counterpart
  in the state.
\<close>

record kmem =
  locks :: "spinlock list"
  freelist_CPU :: "addr list"
  mem :: memory

text \<open>
  \<open>kfree\<close>. The first address after the kernel (\<open>end\<close>) and \<open>PHYSTOP\<close> come from
  the linker script and \<open>memlayout.h\<close>, and \<open>cur_cpu\<close> from \<open>cpuid()\<close>: they are
  parameters.
\<close>

definition kfree :: "addr \<Rightarrow> addr \<Rightarrow> nat \<Rightarrow> addr \<Rightarrow> kmem \<Rightarrow> kmem outcome" where
  "kfree kernel_end PHYSTOP cur_cpu pa s =
     (if pa mod of_nat PGSIZE \<noteq> 0 \<or> pa < kernel_end \<or> PHYSTOP \<le> pa then Panic ''kfree''
      else
        let m1 = memset (mem s) pa 1 PGSIZE;
            r = pa
        in bind (acquire cur_cpu cur_cpu (locks s)) (\<lambda>l1.
             let m2 = store64 m1 r (freelist_CPU s ! cur_cpu);
                 fl = (freelist_CPU s)[cur_cpu := r]
             in Done \<lparr>locks = release cur_cpu l1, freelist_CPU = fl, mem = m2\<rparr>))"



section \<open>bio.c: the buffer cache\<close>

definition BUCKET_SIZE :: nat where
  "BUCKET_SIZE = 13"

text \<open>
  Modelled from the spec: \<open>buf.h\<close> is not among the sources. The spec's buffer has
  a device id, a block number, a validity flag, a reference count that is never
  negative (an unsigned counter), a last-used tick, the data and a block lock; the
  source compares the tick with a \<open>uint\<close>. The \<open>prev\<close>/\<open>next\<close> links are the
  lists of \<open>head\<close> below. The block lock (\<open>struct sleeplock lock\<close>) is the process
  that holds it, if any.
\<close>

record buf =
  valid :: bool
  dev :: "32 word"
  blockno :: "32 word"
  sleeplock :: "nat option"
  refcnt :: "32 word"
  used_tick :: "32 word"
  data :: "8 word list"

text \<open>
  \<open>struct bcache\<close>: the bucket locks, the pool of buffers (a buffer is named by its
  index in the pool) and, for each bucket, the circular list hanging off
  \<open>head[i]\<close>, read from \<open>head[i].next\<close> on. \<open>disk\<close> is the device behind
  \<open>virtio_disk_rw\<close>: the content of each (device, block).
\<close>

record bcache =
  lock :: "spinlock list"
  bufs :: "buf list"
  head :: "nat list list"
  disk :: "32 word \<times> 32 word \<Rightarrow> 8 word list"

definition upd_buf :: "nat \<Rightarrow> (buf \<Rightarrow> buf) \<Rightarrow> bcache \<Rightarrow> bcache" where
  "upd_buf b f s = s\<lparr>bufs := (bufs s)[b := f (bufs s ! b)]\<rparr>"

text \<open>
  Taking \<open>b\<close> out of the list it is in, whichever that is (\<open>b->next->prev = b->prev;
  b->prev->next = b->next\<close>), and putting it right after \<open>head[k]\<close>
  (\<open>b->next = head[k].next; b->prev = &head[k]; head[k].next->prev = b;
  head[k].next = b\<close>).
\<close>

definition unlink :: "nat \<Rightarrow> nat list list \<Rightarrow> nat list list" where
  "unlink b hs = map (remove1 b) hs"

definition push_front :: "nat \<Rightarrow> nat \<Rightarrow> nat list list \<Rightarrow> nat list list" where
  "push_front k b hs = hs[k := b # hs ! k]"

text \<open>
  \<open>binit\<close>, on the zero-initialised static \<open>bcache\<close>. \<open>NBUF\<close> (\<open>param.h\<close>) and
  the block size (\<open>fs.h\<close>) are parameters, and so is the content of the disk.
\<close>

definition zero_buf :: "nat \<Rightarrow> buf" where
  "zero_buf BSIZE = \<lparr>valid = False, dev = 0, blockno = 0, sleeplock = None, refcnt = 0,
     used_tick = 0, data = replicate BSIZE 0\<rparr>"

definition binit :: "nat \<Rightarrow> nat \<Rightarrow> (32 word \<times> 32 word \<Rightarrow> 8 word list) \<Rightarrow> bcache" where
  "binit NBUF BSIZE d =
     \<lparr>lock = replicate BUCKET_SIZE None,
      bufs = replicate NBUF (zero_buf BSIZE),
      head = fold (\<lambda>i hs. push_front (i mod BUCKET_SIZE) i hs) [0..<NBUF]
               (replicate BUCKET_SIZE []),
      disk = d\<rparr>"

text \<open>
  Modelled from the spec: \<open>sleeplock.c\<close> is not among the sources. The block lock is
  exclusive; a caller that finds it held sleeps.
\<close>

definition holdingsleep :: "nat \<Rightarrow> nat \<Rightarrow> bcache \<Rightarrow> bool" where
  "holdingsleep pid b s = (sleeplock (bufs s ! b) = Some pid)"

definition acquiresleep :: "nat \<Rightarrow> nat \<Rightarrow> bcache \<Rightarrow> bcache outcome" where
  "acquiresleep pid b s =
     (if sleeplock (bufs s ! b) = None then Done (upd_buf b (\<lambda>x. x\<lparr>sleeplock := Some pid\<rparr>) s)
      else Sleep b)"

definition releasesleep :: "nat \<Rightarrow> bcache \<Rightarrow> bcache" where
  "releasesleep b s = upd_buf b (\<lambda>x. x\<lparr>sleeplock := None\<rparr>) s"

definition acquire_b :: "nat \<Rightarrow> nat \<Rightarrow> bcache \<Rightarrow> bcache outcome" where
  "acquire_b cpu k s = bind (acquire cpu k (lock s)) (\<lambda>l. Done (s\<lparr>lock := l\<rparr>))"

definition release_b :: "nat \<Rightarrow> bcache \<Rightarrow> bcache" where
  "release_b k s = s\<lparr>lock := release k (lock s)\<rparr>"

text \<open>
  Modelled from the spec: \<open>virtio_disk.c\<close> is not among the sources. The device
  primitive transfers the data of the buffer to (\<open>write\<close>) or from the block
  (device, block number) of the buffer and returns when the transfer is complete.
\<close>

definition virtio_disk_rw :: "nat \<Rightarrow> bool \<Rightarrow> bcache \<Rightarrow> bcache" where
  "virtio_disk_rw b write s =
     (let x = bufs s ! b in
      if write then s\<lparr>disk := (disk s)((dev x, blockno x) := data x)\<rparr>
      else upd_buf b (\<lambda>y. y\<lparr>data := disk s (dev x, blockno x)\<rparr>) s)"

text \<open>The first loop of \<open>bget\<close>: the buffer of the bucket that caches the block.\<close>

fun bget_lookup :: "buf list \<Rightarrow> 32 word \<Rightarrow> 32 word \<Rightarrow> nat list \<Rightarrow> nat option" where
  "bget_lookup bs d n [] = None"
| "bget_lookup bs d n (b # rest) =
     (if dev (bs ! b) = d \<and> blockno (bs ! b) = n then Some b
      else bget_lookup bs d n rest)"

text \<open>The inner loop of the eviction scan, on \<open>temp\<close> and \<open>temp_tick\<close>.\<close>

fun bget_scan :: "buf list \<Rightarrow> nat list \<Rightarrow> nat option \<times> 32 word \<Rightarrow> nat option \<times> 32 word" where
  "bget_scan bs [] acc = acc"
| "bget_scan bs (b # rest) (temp, temp_tick) =
     (if refcnt (bs ! b) = 0 \<and> (temp_tick = 0 \<or> used_tick (bs ! b) < temp_tick)
      then bget_scan bs rest (Some b, used_tick (bs ! b))
      else bget_scan bs rest (temp, temp_tick))"

text \<open>What \<open>bget\<close> writes into the buffer it recycles.\<close>

definition recycle :: "32 word \<Rightarrow> 32 word \<Rightarrow> 32 word \<Rightarrow> buf \<Rightarrow> buf" where
  "recycle d n ticks x =
     x\<lparr>dev := d, blockno := n, valid := False, refcnt := 1, used_tick := ticks\<rparr>"

text \<open>
  The outer loop of the eviction scan, over the values of \<open>i\<close> still to come. It is
  entered with the lock of \<open>cur_bucket\<close> held.
\<close>

fun bget_evict ::
  "nat \<Rightarrow> nat \<Rightarrow> 32 word \<Rightarrow> 32 word \<Rightarrow> 32 word \<Rightarrow> nat \<Rightarrow> nat list \<Rightarrow> nat option \<times> 32 word
     \<Rightarrow> bcache \<Rightarrow> (bcache \<times> nat) outcome" where
  "bget_evict cpu pid ticks d n cur_bucket [] acc s = Panic ''bget: no buffers''"
| "bget_evict cpu pid ticks d n cur_bucket (i # is) acc s =
     (let bucket = (cur_bucket + i) mod BUCKET_SIZE in
      if bucket \<noteq> cur_bucket \<and> holding cpu (lock s ! bucket)
      then bget_evict cpu pid ticks d n cur_bucket is acc s
      else
        bind (if bucket \<noteq> cur_bucket then acquire_b cpu bucket s else Done s) (\<lambda>s1.
          let acc1 = bget_scan (bufs s1) (head s1 ! bucket) acc in
          case fst acc1 of
            Some temp \<Rightarrow>
              let s2 = (if bucket \<noteq> cur_bucket
                        then let u = release_b bucket (s1\<lparr>head := unlink temp (head s1)\<rparr>)
                             in u\<lparr>head := push_front cur_bucket temp (head u)\<rparr>
                        else s1);
                  s3 = upd_buf temp (recycle d n ticks) s2;
                  s4 = release_b cur_bucket s3
              in bind (acquiresleep pid temp s4) (\<lambda>s5. Done (s5, temp))
          | None \<Rightarrow>
              bget_evict cpu pid ticks d n cur_bucket is acc1
                (if bucket \<noteq> cur_bucket then release_b bucket s1 else s1)))"

text \<open>
  \<open>bget\<close>, called on core \<open>cpu\<close> by process \<open>pid\<close>; \<open>ticks\<close> is the value of the
  tick counter the call reads (\<open>tickslock\<close> belongs to the clock and is not modelled).
  The result is the new state and the buffer returned.
\<close>

definition bget :: "nat \<Rightarrow> nat \<Rightarrow> 32 word \<Rightarrow> 32 word \<Rightarrow> 32 word \<Rightarrow> bcache
     \<Rightarrow> (bcache \<times> nat) outcome" where
  "bget cpu pid ticks d n s =
     (let cur_bucket = unat n mod BUCKET_SIZE in
      bind (acquire_b cpu cur_bucket s) (\<lambda>s1.
        case bget_lookup (bufs s1) d n (head s1 ! cur_bucket) of
          Some b \<Rightarrow>
            let s2 = upd_buf b (\<lambda>x. x\<lparr>refcnt := refcnt x + 1, used_tick := ticks\<rparr>) s1;
                s3 = release_b cur_bucket s2
            in bind (acquiresleep pid b s3) (\<lambda>s4. Done (s4, b))
        | None \<Rightarrow>
            bget_evict cpu pid ticks d n cur_bucket [0..<BUCKET_SIZE] (None, 0) s1))"

text \<open>\<open>bread\<close> reads the tick counter in \<open>bget\<close> and once more before it returns.\<close>

definition bread :: "nat \<Rightarrow> nat \<Rightarrow> 32 word \<Rightarrow> 32 word \<Rightarrow> 32 word \<Rightarrow> 32 word \<Rightarrow> bcache
     \<Rightarrow> (bcache \<times> nat) outcome" where
  "bread cpu pid ticks ticks2 d n s =
     bind (bget cpu pid ticks d n s) (\<lambda>(s1, b).
       let s2 = (if \<not> valid (bufs s1 ! b)
                 then upd_buf b (\<lambda>x. x\<lparr>valid := True\<rparr>) (virtio_disk_rw b False s1)
                 else s1)
       in Done (upd_buf b (\<lambda>x. x\<lparr>used_tick := ticks2\<rparr>) s2, b))"

definition bwrite :: "nat \<Rightarrow> nat \<Rightarrow> bcache \<Rightarrow> bcache outcome" where
  "bwrite pid b s =
     (if \<not> holdingsleep pid b s then Panic ''bwrite''
      else Done (virtio_disk_rw b True s))"

definition brelse :: "nat \<Rightarrow> nat \<Rightarrow> 32 word \<Rightarrow> nat \<Rightarrow> bcache \<Rightarrow> bcache outcome" where
  "brelse cpu pid ticks b s =
     (if \<not> holdingsleep pid b s then Panic ''brelse''
      else
        let s1 = releasesleep b s;
            cur_bucket = unat (blockno (bufs s1 ! b)) mod BUCKET_SIZE
        in bind (acquire_b cpu cur_bucket s1) (\<lambda>s2.
             let s3 = upd_buf b (\<lambda>x. x\<lparr>refcnt := refcnt x - 1\<rparr>) s2;
                 s4 = upd_buf b (\<lambda>x. x\<lparr>used_tick := ticks\<rparr>) s3;
                 s5 = (if refcnt (bufs s4 ! b) = 0
                       then s4\<lparr>head := push_front cur_bucket b (unlink b (head s4))\<rparr>
                       else s4)
             in Done (release_b cur_bucket s5)))"

definition bpin :: "nat \<Rightarrow> nat \<Rightarrow> bcache \<Rightarrow> bcache outcome" where
  "bpin cpu b s =
     (let cur_bucket = unat (blockno (bufs s ! b)) mod BUCKET_SIZE in
      bind (acquire_b cpu cur_bucket s) (\<lambda>s1.
        Done (release_b cur_bucket (upd_buf b (\<lambda>x. x\<lparr>refcnt := refcnt x + 1\<rparr>) s1))))"

definition bunpin :: "nat \<Rightarrow> nat \<Rightarrow> bcache \<Rightarrow> bcache outcome" where
  "bunpin cpu b s =
     (let cur_bucket = unat (blockno (bufs s ! b)) mod BUCKET_SIZE in
      bind (acquire_b cpu cur_bucket s) (\<lambda>s1.
        Done (release_b cur_bucket (upd_buf b (\<lambda>x. x\<lparr>refcnt := refcnt x - 1\<rparr>) s1))))"

section \<open>Notions of the claims\<close>

text \<open>The home bucket of a buffer: \<open>b->blockno % BUCKET_SIZE\<close>.\<close>

definition home :: "nat \<Rightarrow> bcache \<Rightarrow> nat" where
  "home b s = unat (blockno (bufs s ! b)) mod BUCKET_SIZE"

text \<open>
  A sequence of \<open>bpin\<close> and \<open>bunpin\<close> calls on one buffer, each from the core it
  names.
\<close>

datatype pin_call = Pin nat | Unpin nat

fun run_pins :: "nat \<Rightarrow> pin_call list \<Rightarrow> bcache \<Rightarrow> bcache outcome" where
  "run_pins b [] s = Done s"
| "run_pins b (Pin cpu # cs) s = bind (bpin cpu b s) (run_pins b cs)"
| "run_pins b (Unpin cpu # cs) s = bind (bunpin cpu b s) (run_pins b cs)"

fun is_pin :: "pin_call \<Rightarrow> bool" where
  "is_pin (Pin c) = True"
| "is_pin (Unpin c) = False"


text \<open>
  The state in which \<open>bget\<close> returns buffer \<open>v\<close>, found in bucket \<open>k\<close>, recycled
  for block \<open>n\<close> of device \<open>d\<close>.
\<close>

definition evicted :: "nat \<Rightarrow> 32 word \<Rightarrow> 32 word \<Rightarrow> 32 word \<Rightarrow> nat \<Rightarrow> nat \<Rightarrow> bcache \<Rightarrow> bcache" where
  "evicted pid t d n k v s =
     upd_buf v (\<lambda>x. (recycle d n t x)\<lparr>sleeplock := Some pid\<rparr>)
       (s\<lparr>head := (if k = unat n mod BUCKET_SIZE then head s
                    else push_front (unat n mod BUCKET_SIZE) v (unlink v (head s)))\<rparr>)"

text \<open>The state in which \<open>bget\<close> returns buffer \<open>b\<close>, found cached.\<close>

definition cached :: "nat \<Rightarrow> 32 word \<Rightarrow> nat \<Rightarrow> bcache \<Rightarrow> bcache" where
  "cached pid t b s =
     upd_buf b (\<lambda>x. x\<lparr>refcnt := refcnt x + 1, used_tick := t, sleeplock := Some pid\<rparr>) s"

text \<open>
  The lists are well formed: there is one per bucket, and every buffer of the pool is
  in exactly one of them, once.
\<close>

definition wf_lists :: "bcache \<Rightarrow> bool" where
  "wf_lists s \<longleftrightarrow>
     length (head s) = BUCKET_SIZE \<and>
     (\<forall>k<BUCKET_SIZE. distinct (head s ! k)) \<and>
     (\<forall>j<BUCKET_SIZE. \<forall>k<BUCKET_SIZE. j \<noteq> k \<longrightarrow> set (head s ! j) \<inter> set (head s ! k) = {}) \<and>
     (\<forall>b. b < length (bufs s) \<longleftrightarrow> (\<exists>k<BUCKET_SIZE. b \<in> set (head s ! k)))"

section \<open>Concrete states\<close>


definition kmem_none :: kmem where
  "kmem_none = \<lparr>locks = [None, None], freelist_CPU = [0, 0], mem = (\<lambda>_. 0)\<rparr>"

text \<open>
  A pool of 30 buffers (the \<open>NBUF\<close> of xv6) on a blank disk. The blocks are 16 bytes
  long: the cache never looks at the data. In \<open>bc_held\<close> process 1 holds buffer 0;
  in \<open>bc_pinned\<close> every buffer has reference count 1.
\<close>

definition zero_disk :: "32 word \<times> 32 word \<Rightarrow> 8 word list" where
  "zero_disk = (\<lambda>_. replicate 16 0)"

definition bc_held :: bcache where
  "bc_held = upd_buf 0 (\<lambda>x. x\<lparr>sleeplock := Some 1, refcnt := 1\<rparr>) (binit 30 16 zero_disk)"

definition bc_pinned :: bcache where
  "bc_pinned = (binit 30 16 zero_disk)\<lparr>bufs := replicate 30 ((zero_buf 16)\<lparr>refcnt := 1\<rparr>)\<rparr>"

section \<open>Calls and runs\<close>

text \<open>
  The public operations, with the core and the process that call them, the values of
  the tick counter they read and their arguments; \<open>exec\<close> runs one on a state and
  \<open>exec_all\<close> a sequence of them, as long as they return.
\<close>

datatype op =
    Bread nat nat "32 word" "32 word" "32 word" "32 word"
  | Bwrite nat nat
  | Brelse nat nat "32 word" nat
  | Bpin nat nat
  | Bunpin nat nat

fun exec :: "op \<Rightarrow> bcache \<Rightarrow> bcache outcome" where
  "exec (Bread cpu pid t t2 d n) s = map_outcome fst (bread cpu pid t t2 d n s)"
| "exec (Bwrite pid b) s = bwrite pid b s"
| "exec (Brelse cpu pid t b) s = brelse cpu pid t b s"
| "exec (Bpin cpu b) s = bpin cpu b s"
| "exec (Bunpin cpu b) s = bunpin cpu b s"





section \<open>Reachable states and their invariant\<close>

text \<open>
  The states reached from \<open>binit\<close> by calls that return. A buffer passed to
  \<open>bwrite\<close>, \<open>brelse\<close>, \<open>bpin\<close> or \<open>bunpin\<close> is a buffer of the pool.
\<close>

fun arg_ok :: "op \<Rightarrow> bcache \<Rightarrow> bool" where
  "arg_ok (Bread cpu pid t t2 d n) s = True"
| "arg_ok (Bwrite pid b) s = (b < length (bufs s))"
| "arg_ok (Brelse cpu pid t b) s = (b < length (bufs s))"
| "arg_ok (Bpin cpu b) s = (b < length (bufs s))"
| "arg_ok (Bunpin cpu b) s = (b < length (bufs s))"

inductive reachable :: "nat \<Rightarrow> nat \<Rightarrow> bcache \<Rightarrow> bool" for NBUF BSIZE where
  boot: "reachable NBUF BSIZE (binit NBUF BSIZE d)"
| call: "reachable NBUF BSIZE s \<Longrightarrow> arg_ok c s \<Longrightarrow> exec c s = Done s' \<Longrightarrow>
         reachable NBUF BSIZE s'"

text \<open>The identity of a buffer: its device and block number.\<close>

definition ident :: "buf \<Rightarrow> 32 word \<times> 32 word" where
  "ident x = (dev x, blockno x)"

text \<open>
  After \<open>binit\<close>, process 1 reads block 5 of device 1 (\<open>pin_bcache\<close>) and, while it
  holds the buffer, process 2 reads block 18, of the same bucket (\<open>pin_bcache2\<close>).
\<close>

definition pin_bcache :: bcache where
  "pin_bcache = result_or (binit 30 16 zero_disk)
     (exec (Bread 0 1 1 2 1 5) (binit 30 16 zero_disk))"

definition pin_bcache2 :: bcache where
  "pin_bcache2 = result_or pin_bcache (exec (Bread 0 2 3 4 1 18) pin_bcache)"

text \<open>
  The invariant of the cache: the lists are well formed, a buffer whose identity is
  not (0, 0) is in the list of its home bucket, and two buffers have the same identity
  only when it is (0, 0).
\<close>

definition homed :: "bcache \<Rightarrow> bool" where
  "homed s \<longleftrightarrow>
     (\<forall>k<BUCKET_SIZE. \<forall>b\<in>set (head s ! k).
        ident (bufs s ! b) \<noteq> (0, 0) \<longrightarrow> unat (blockno (bufs s ! b)) mod BUCKET_SIZE = k)"

definition unique_ids :: "bcache \<Rightarrow> bool" where
  "unique_ids s \<longleftrightarrow>
     (\<forall>a<length (bufs s). \<forall>b<length (bufs s).
        a \<noteq> b \<and> ident (bufs s ! a) = ident (bufs s ! b) \<longrightarrow> ident (bufs s ! a) = (0, 0))"

definition cache_inv :: "bcache \<Rightarrow> bool" where
  "cache_inv s \<longleftrightarrow> wf_lists s \<and> homed s \<and> unique_ids s"

chapter \<open>The claims\<close>

section \<open>Facts about spinlocks and memory\<close>

lemma update_free: "lks ! k = None \<Longrightarrow> lks[k := None] = lks"
  by (metis list_update_id)

lemma acquire_free: "lks ! k = None \<Longrightarrow> acquire cpu k lks = Done (lks[k := Some cpu])"
  by (simp add: acquire_def)

lemma acquire_held: "lks ! k \<noteq> None \<Longrightarrow> acquire cpu k lks = Spin k"
  by (simp add: acquire_def)

lemma release_acquired: "lks ! k = None \<Longrightarrow> release k (lks[k := Some cpu]) = lks"
  by (simp add: release_def update_free)

lemma unat_of_nat_small: "i < 8 \<Longrightarrow> unat (of_nat i :: 64 word) = i"
  by (simp add: unat_of_nat take_bit_nat_eq_self)

lemma store64_bytes:
  "map (\<lambda>i. store64 m a v (a + of_nat i)) [0..<8]
     = map (\<lambda>i. (ucast (drop_bit (8 * i) v) :: 8 word)) [0..<8]"
  by (rule map_cong) (auto simp: store64_def unat_of_nat_small)

lemma load64_store64: "load64 (store64 m a v) a = v"
proof (rule bit_word_eqI)
  fix n assume n: "n < LENGTH(64)"
  then have d: "n div 8 < 8" by simp
  have e: "8 * (n div 8) + n mod 8 = n" by simp
  have "bit (load64 (store64 m a v) a) n \<longleftrightarrow>
        bit (horner_sum uint (2 ^ LENGTH(8))
               (map (\<lambda>i. (ucast (drop_bit (8 * i) v) :: 8 word)) [0..<8])) n"
    using n unfolding load64_def store64_bytes by (simp add: bit_word_of_int_iff)
  also have "\<dots> \<longleftrightarrow> bit v n"
    unfolding bit_horner_sum_uint_exp_iff using n d
    by (simp add: bit_simps e del: upt_Suc)
  finally show "bit (load64 (store64 m a v) a) n \<longleftrightarrow> bit v n" .
qed

section \<open>The page allocator\<close>

lemma kfree_panic_iff:
  "(\<exists>msg. kfree e P cpu pa s = Panic msg) \<longleftrightarrow> (pa mod 4096 \<noteq> 0 \<or> pa < e \<or> P \<le> pa)"
  by (auto simp: kfree_def PGSIZE_def acquire_def Let_def split: if_splits)

lemma kfree_ok:
  assumes "pa mod 4096 = 0" "e \<le> pa" "pa < P" "locks s ! cpu = None"
  shows "kfree e P cpu pa s =
     Done (s\<lparr>freelist_CPU := (freelist_CPU s)[cpu := pa],
             mem := store64 (memset (mem s) pa 1 4096) pa (freelist_CPU s ! cpu)\<rparr>)"
  using assms
  by (simp add: kfree_def PGSIZE_def acquire_free release_acquired Let_def not_less not_le)

text \<open>
  Claim C5. \<open>kfree\<close> panics exactly when the address is not a multiple of the page
  size, or lies below the end of the kernel or not below \<open>PHYSTOP\<close>. Otherwise, with
  the lock of the calling core free, it returns: \<open>memset\<close> has written 1 (which is not
  the 5 that \<open>kalloc\<close> writes) into each of the 4096 bytes of the page, then the old
  head of the calling core's list has been stored in the first eight bytes of the page
  and the page has become the head of that list; no other list has changed, whatever
  list the page was in before.
\<close>

theorem kfree_spec:
  "((\<exists>msg. kfree e P cpu pa s = Panic msg) \<longleftrightarrow> (pa mod 4096 \<noteq> 0 \<or> pa < e \<or> P \<le> pa)) \<and>
   (pa mod 4096 = 0 \<and> e \<le> pa \<and> pa < P \<and> locks s ! cpu = None \<and> cpu < length (freelist_CPU s) \<longrightarrow>
     (\<exists>s'. kfree e P cpu pa s = Done s' \<and>
        (\<forall>x. unat (x - pa) < 4096 \<longrightarrow> memset (mem s) pa 1 PGSIZE x = 1) \<and>
        mem s' = store64 (memset (mem s) pa 1 PGSIZE) pa (freelist_CPU s ! cpu) \<and>
        (\<forall>x. 8 \<le> unat (x - pa) \<and> unat (x - pa) < 4096 \<longrightarrow> mem s' x = 1) \<and>
        (\<forall>x. 4096 \<le> unat (x - pa) \<longrightarrow> mem s' x = mem s x) \<and>
        freelist_CPU s' ! cpu = pa \<and>
        load64 (mem s') pa = freelist_CPU s ! cpu \<and>
        (\<forall>c. c \<noteq> cpu \<longrightarrow> freelist_CPU s' ! c = freelist_CPU s ! c) \<and>
        length (freelist_CPU s') = length (freelist_CPU s) \<and>
        locks s' = locks s)) \<and>
   (1 :: 8 word) \<noteq> 5"
  apply (intro conjI impI)
    apply (rule kfree_panic_iff)
   apply (elim conjE)
   apply (simp add: kfree_ok PGSIZE_def load64_store64 memset_def)
   apply (simp add: store64_def memset_def)
  apply simp
  done





section \<open>Writing and pinning\<close>

lemma acquire_b_free: "lock s ! k = None \<Longrightarrow> acquire_b cpu k s = Done (s\<lparr>lock := (lock s)[k := Some cpu]\<rparr>)"
  by (simp add: acquire_b_def acquire_free)

lemma acquire_b_held: "lock s ! k \<noteq> None \<Longrightarrow> acquire_b cpu k s = Spin k"
  by (simp add: acquire_b_def acquire_held)

text \<open>
  Claim C9. \<open>bwrite\<close> panics when the caller does not hold the block lock of the
  buffer. When the caller holds it, \<open>bwrite\<close> returns, the device holds the data of
  the buffer at the buffer's (device, block number), and nothing else has changed: the
  buffers (their identity, validity, reference count, tick and block lock), the lists
  and the bucket locks are as before.
\<close>

theorem bwrite_spec:
  "(\<not> holdingsleep pid b s \<longrightarrow> bwrite pid b s = Panic ''bwrite'') \<and>
   (holdingsleep pid b s \<longrightarrow>
      (\<exists>s'. bwrite pid b s = Done s' \<and>
         disk s' = (disk s)((dev (bufs s ! b), blockno (bufs s ! b)) := data (bufs s ! b)) \<and>
         bufs s' = bufs s \<and> head s' = head s \<and> lock s' = lock s \<and>
         holdingsleep pid b s'))"
  by (simp add: bwrite_def virtio_disk_rw_def holdingsleep_def Let_def)

lemma bpin_free:
  "lock s ! home b s = None \<Longrightarrow>
   bpin cpu b s = Done (upd_buf b (\<lambda>x. x\<lparr>refcnt := refcnt x + 1\<rparr>) s)"
  by (simp add: bpin_def home_def Let_def acquire_b_free release_b_def upd_buf_def release_acquired)

lemma bunpin_free:
  "lock s ! home b s = None \<Longrightarrow>
   bunpin cpu b s = Done (upd_buf b (\<lambda>x. x\<lparr>refcnt := refcnt x - 1\<rparr>) s)"
  by (simp add: bunpin_def home_def Let_def acquire_b_free release_b_def upd_buf_def release_acquired)

lemma upd_buf_upd_buf:
  "b < length (bufs s) \<Longrightarrow> upd_buf b f (upd_buf b g s) = upd_buf b (f \<circ> g) s"
  by (simp add: upd_buf_def)

lemma upd_buf_id: "(\<And>x. f x = x) \<Longrightarrow> upd_buf b f s = s"
  by (simp add: upd_buf_def)

lemma home_upd_refcnt [simp]:
  "home b (upd_buf b (\<lambda>x. x\<lparr>refcnt := g x\<rparr>) s) = home b s"
  by (cases "b < length (bufs s)") (simp_all add: home_def upd_buf_def list_update_beyond)

lemma lock_upd_buf [simp]: "lock (upd_buf b f s) = lock s"
  by (simp add: upd_buf_def)

lemma length_upd_buf [simp]: "length (bufs (upd_buf b f s)) = length (bufs s)"
  by (simp add: upd_buf_def)

lemma run_pins_general:
  "b < length (bufs s) \<Longrightarrow> lock s ! home b s = None \<Longrightarrow>
   run_pins b cs s =
     Done (upd_buf b (\<lambda>x. x\<lparr>refcnt := refcnt x + of_nat (length (filter is_pin cs))
                                   - of_nat (length (filter (\<lambda>c. \<not> is_pin c) cs))\<rparr>) s)"
proof (induction cs arbitrary: s)
  case Nil
  then show ?case by (simp add: upd_buf_id)
next
  case (Cons c cs)
  show ?case
  proof (cases c)
    case (Pin cpu)
    let ?s1 = "upd_buf b (\<lambda>x. x\<lparr>refcnt := refcnt x + 1\<rparr>) s"
    have "run_pins b (c # cs) s = run_pins b cs ?s1"
      using Cons.prems Pin by (simp add: bpin_free)
    also have "\<dots> = Done (upd_buf b (\<lambda>x. x\<lparr>refcnt := refcnt x + of_nat (length (filter is_pin cs))
                                   - of_nat (length (filter (\<lambda>c. \<not> is_pin c) cs))\<rparr>) ?s1)"
      using Cons.prems by (intro Cons.IH) simp_all
    finally show ?thesis using Cons.prems Pin
      by (simp add: upd_buf_upd_buf comp_def algebra_simps)
  next
    case (Unpin cpu)
    let ?s1 = "upd_buf b (\<lambda>x. x\<lparr>refcnt := refcnt x - 1\<rparr>) s"
    have "run_pins b (c # cs) s = run_pins b cs ?s1"
      using Cons.prems Unpin by (simp add: bunpin_free)
    also have "\<dots> = Done (upd_buf b (\<lambda>x. x\<lparr>refcnt := refcnt x + of_nat (length (filter is_pin cs))
                                   - of_nat (length (filter (\<lambda>c. \<not> is_pin c) cs))\<rparr>) ?s1)"
      using Cons.prems by (intro Cons.IH) simp_all
    finally show ?thesis using Cons.prems Unpin
      by (simp add: upd_buf_upd_buf comp_def algebra_simps)
  qed
qed

text \<open>
  Claim C10. For a buffer of the pool: with the lock of its home bucket free, \<open>bpin\<close>
  adds one to the reference count and \<open>bunpin\<close> subtracts one, and they change
  nothing else (the block lock included); with that lock held, they wait for it. Any
  sequence of \<open>bpin\<close> and \<open>bunpin\<close> calls on the buffer, from any cores, with as many
  pins as unpins, returns and leaves the whole state as it was.
\<close>

theorem pin_unpin_spec:
  assumes "b < length (bufs s)"
  shows "(lock s ! home b s = None \<longrightarrow>
            bpin cpu b s = Done (upd_buf b (\<lambda>x. x\<lparr>refcnt := refcnt x + 1\<rparr>) s) \<and>
            bunpin cpu b s = Done (upd_buf b (\<lambda>x. x\<lparr>refcnt := refcnt x - 1\<rparr>) s))
       \<and> (lock s ! home b s \<noteq> None \<longrightarrow>
            bpin cpu b s = Spin (home b s) \<and> bunpin cpu b s = Spin (home b s))
       \<and> (lock s ! home b s = None \<and>
            length (filter is_pin cs) = length (filter (\<lambda>c. \<not> is_pin c) cs) \<longrightarrow>
            run_pins b cs s = Done s)"
proof (intro conjI impI)
  assume "lock s ! home b s \<noteq> None"
  then show "bpin cpu b s = Spin (home b s)" "bunpin cpu b s = Spin (home b s)"
    by (simp_all add: bpin_def bunpin_def home_def Let_def acquire_b_held)
next
  assume "lock s ! home b s = None \<and>
            length (filter is_pin cs) = length (filter (\<lambda>c. \<not> is_pin c) cs)"
  then show "run_pins b cs s = Done s"
    using assms by (simp add: run_pins_general upd_buf_id)
qed (simp_all add: bpin_free bunpin_free)

section \<open>Releasing\<close>

lemma moved_to_front:
  "k < length hs \<Longrightarrow>
   push_front k b (unlink b hs) ! k = b # remove1 b (hs ! k) \<and>
   (\<forall>j<length hs. j \<noteq> k \<longrightarrow> push_front k b (unlink b hs) ! j = remove1 b (hs ! j))"
  by (simp add: push_front_def unlink_def)

lemma brelse_held:
  assumes "holdingsleep pid b s" "b < length (bufs s)" "lock s ! home b s = None"
  shows "brelse cpu pid ticks b s =
     Done (s\<lparr>bufs := (bufs s)[b := (bufs s ! b)\<lparr>sleeplock := None,
                      refcnt := refcnt (bufs s ! b) - 1, used_tick := ticks\<rparr>],
             head := (if refcnt (bufs s ! b) - 1 = 0
                      then push_front (home b s) b (unlink b (head s)) else head s)\<rparr>)"
  using assms
  by (simp add: brelse_def holdingsleep_def releasesleep_def home_def upd_buf_def Let_def
        acquire_b_free release_b_def release_acquired)

text \<open>
  Claim C8. \<open>brelse\<close> panics when the caller does not hold the block lock of the
  buffer. When the caller holds it, \<open>brelse\<close> waits for the lock of the buffer's home
  bucket if that lock is held; with that lock free it returns, the block lock is free,
  the reference count is one less, the tick is the current tick, and the lists are as
  before unless the count has become 0: then the buffer is the first of its home
  bucket's list and is in no other list.
\<close>

theorem brelse_spec:
  "(\<not> holdingsleep pid b s \<longrightarrow> brelse cpu pid ticks b s = Panic ''brelse'') \<and>
   (holdingsleep pid b s \<and> b < length (bufs s) \<and> lock s ! home b s \<noteq> None \<longrightarrow>
      brelse cpu pid ticks b s = Spin (home b s)) \<and>
   (holdingsleep pid b s \<and> b < length (bufs s) \<and> lock s ! home b s = None \<longrightarrow>
      (\<exists>s'. brelse cpu pid ticks b s = Done s' \<and>
         bufs s' = (bufs s)[b := (bufs s ! b)\<lparr>sleeplock := None,
                      refcnt := refcnt (bufs s ! b) - 1, used_tick := ticks\<rparr>] \<and>
         lock s' = lock s \<and> disk s' = disk s \<and>
         (refcnt (bufs s' ! b) \<noteq> 0 \<longrightarrow> head s' = head s) \<and>
         (refcnt (bufs s' ! b) = 0 \<and> home b s < length (head s) \<longrightarrow>
            head s' ! home b s = b # remove1 b (head s ! home b s) \<and>
            (\<forall>j<length (head s). j \<noteq> home b s \<longrightarrow>
               head s' ! j = remove1 b (head s ! j)))))"
proof (intro conjI impI)
  assume "\<not> holdingsleep pid b s"
  then show "brelse cpu pid ticks b s = Panic ''brelse''"
    by (simp add: brelse_def)
next
  assume "holdingsleep pid b s \<and> b < length (bufs s) \<and> lock s ! home b s \<noteq> None"
  then show "brelse cpu pid ticks b s = Spin (home b s)"
    by (simp add: brelse_def holdingsleep_def releasesleep_def home_def upd_buf_def Let_def
          acquire_b_held)
next
  assume a: "holdingsleep pid b s \<and> b < length (bufs s) \<and> lock s ! home b s = None"
  then have r: "brelse cpu pid ticks b s =
     Done (s\<lparr>bufs := (bufs s)[b := (bufs s ! b)\<lparr>sleeplock := None,
                      refcnt := refcnt (bufs s ! b) - 1, used_tick := ticks\<rparr>],
             head := (if refcnt (bufs s ! b) - 1 = 0
                      then push_front (home b s) b (unlink b (head s)) else head s)\<rparr>)"
    by (intro brelse_held) simp_all
  show "\<exists>s'. brelse cpu pid ticks b s = Done s' \<and>
         bufs s' = (bufs s)[b := (bufs s ! b)\<lparr>sleeplock := None,
                      refcnt := refcnt (bufs s ! b) - 1, used_tick := ticks\<rparr>] \<and>
         lock s' = lock s \<and> disk s' = disk s \<and>
         (refcnt (bufs s' ! b) \<noteq> 0 \<longrightarrow> head s' = head s) \<and>
         (refcnt (bufs s' ! b) = 0 \<and> home b s < length (head s) \<longrightarrow>
            head s' ! home b s = b # remove1 b (head s ! home b s) \<and>
            (\<forall>j<length (head s). j \<noteq> home b s \<longrightarrow>
               head s' ! j = remove1 b (head s ! j)))"
    unfolding r using a moved_to_front[of "home b s" "head s" b] by simp
qed

section \<open>The eviction scan\<close>

lemma release_b_acquire_b:
  "lock s ! k = None \<Longrightarrow> release_b k (s\<lparr>lock := (lock s)[k := Some cpu]\<rparr>) = s"
  by (simp add: release_b_def release_acquired)

lemma scan_pinned:
  "\<forall>b\<in>set xs. refcnt (bs ! b) \<noteq> 0 \<Longrightarrow> bget_scan bs xs acc = acc"
  by (induction xs arbitrary: acc) (auto simp: split_paired_all)

lemma scan_Some_stays: "fst (bget_scan bs xs (Some c, tt)) \<noteq> None"
  by (induction xs arbitrary: c tt) auto

lemma scan_None_iff:
  "fst (bget_scan bs xs (None, 0)) = None \<longleftrightarrow> (\<forall>b\<in>set xs. refcnt (bs ! b) \<noteq> 0)"
  by (induction xs) (auto simp: scan_Some_stays)

lemma scan_None_eq:
  "fst (bget_scan bs xs (None, 0)) = None \<Longrightarrow> bget_scan bs xs (None, 0) = (None, 0)"
  by (simp add: scan_None_iff scan_pinned)

lemma scan_victim_free:
  "fst (bget_scan bs xs acc) = Some v \<Longrightarrow>
   (v \<in> set xs \<and> refcnt (bs ! v) = 0) \<or> fst acc = Some v"
  by (induction xs arbitrary: acc) (auto simp: split_paired_all split: if_splits)

text \<open>One turn of the outer loop.\<close>

lemma evict_skip:
  "(cur + i) mod BUCKET_SIZE \<noteq> cur \<Longrightarrow> lock s ! ((cur + i) mod BUCKET_SIZE) = Some cpu \<Longrightarrow>
   bget_evict cpu pid t d n cur (i # is) acc s = bget_evict cpu pid t d n cur is acc s"
  by (simp add: holding_def Let_def)

lemma evict_spin:
  "(cur + i) mod BUCKET_SIZE \<noteq> cur \<Longrightarrow> lock s ! ((cur + i) mod BUCKET_SIZE) = Some c \<Longrightarrow>
   c \<noteq> cpu \<Longrightarrow>
   bget_evict cpu pid t d n cur (i # is) acc s = Spin ((cur + i) mod BUCKET_SIZE)"
  by (simp add: holding_def Let_def acquire_b_held)

lemma evict_foreign:
  assumes "(cur + i) mod BUCKET_SIZE \<noteq> cur" "lock s ! ((cur + i) mod BUCKET_SIZE) = None"
  shows "bget_evict cpu pid t d n cur (i # is) acc s =
     (let k = (cur + i) mod BUCKET_SIZE; acc1 = bget_scan (bufs s) (head s ! k) acc in
      case fst acc1 of
        None \<Rightarrow> bget_evict cpu pid t d n cur is acc1 s
      | Some v \<Rightarrow>
          bind (acquiresleep pid v (release_b cur (upd_buf v (recycle d n t)
                  (s\<lparr>head := push_front cur v (unlink v (head s))\<rparr>))))
            (\<lambda>s5. Done (s5, v)))"
  using assms
  by (simp add: holding_def Let_def acquire_b_free release_b_acquire_b
        release_b_def release_acquired split: option.splits)

lemma evict_home:
  assumes "(cur + i) mod BUCKET_SIZE = cur"
  shows "bget_evict cpu pid t d n cur (i # is) acc s =
     (let acc1 = bget_scan (bufs s) (head s ! cur) acc in
      case fst acc1 of
        None \<Rightarrow> bget_evict cpu pid t d n cur is acc1 s
      | Some v \<Rightarrow>
          bind (acquiresleep pid v (release_b cur (upd_buf v (recycle d n t) s)))
            (\<lambda>s5. Done (s5, v)))"
  using assms
  by (simp add: Let_def split: option.splits)

lemma evict_all_pinned:
  assumes "\<forall>k<BUCKET_SIZE. \<forall>b\<in>set (head s ! k). refcnt (bufs s ! b) \<noteq> 0"
    and "\<forall>k<BUCKET_SIZE. k \<noteq> cur \<longrightarrow> lock s ! k = None \<or> lock s ! k = Some cpu"
  shows "bget_evict cpu pid t d n cur is (None, 0) s = Panic ''bget: no buffers''"
proof (induction "is")
  case Nil
  show ?case by simp
next
  case (Cons i "is")
  let ?k = "(cur + i) mod BUCKET_SIZE"
  have k: "?k < BUCKET_SIZE" by (simp add: BUCKET_SIZE_def)
  then have sc: "bget_scan (bufs s) (head s ! ?k) (None, 0) = (None, 0)"
    using assms(1) by (intro scan_pinned) auto
  show ?case
  proof (cases "?k = cur")
    case True
    show ?thesis
      unfolding evict_home[OF True] using sc True Cons.IH by (simp add: Let_def)
  next
    case False
    have lk: "lock s ! ?k = None \<or> lock s ! ?k = Some cpu"
      using assms(2) k False by simp
    show ?thesis
    proof (cases "lock s ! ?k")
      case None
      show ?thesis
        unfolding evict_foreign[OF False None] using sc Cons.IH by (simp add: Let_def)
    next
      case (Some c)
      then have 2: "lock s ! ?k = Some cpu" using lk by simp
      show ?thesis
        unfolding evict_skip[OF False 2] using Cons.IH by simp
    qed
  qed
qed

lemma evict_pinned_not_Done:
  assumes "\<forall>k<BUCKET_SIZE. \<forall>b\<in>set (head s ! k). refcnt (bufs s ! b) \<noteq> 0"
  shows "bget_evict cpu pid t d n cur is (None, 0) s \<noteq> Done x"
proof (induction "is")
  case Nil
  show ?case by simp
next
  case (Cons i "is")
  let ?k = "(cur + i) mod BUCKET_SIZE"
  have k: "?k < BUCKET_SIZE" by (simp add: BUCKET_SIZE_def)
  then have sc: "bget_scan (bufs s) (head s ! ?k) (None, 0) = (None, 0)"
    using assms(1) by (intro scan_pinned) auto
  show ?case
  proof (cases "?k = cur")
    case True
    show ?thesis
      unfolding evict_home[OF True] using sc True Cons.IH by (simp add: Let_def)
  next
    case False
    show ?thesis
    proof (cases "lock s ! ?k")
      case None
      show ?thesis
        unfolding evict_foreign[OF False None] using sc Cons.IH by (simp add: Let_def)
    next
      case (Some c)
      show ?thesis
      proof (cases "c = cpu")
        case True
        then have 2: "lock s ! ?k = Some cpu" using Some by simp
        show ?thesis unfolding evict_skip[OF False 2] using Cons.IH by simp
      next
        case ne: False
        show ?thesis unfolding evict_spin[OF False Some ne] by simp
      qed
    qed
  qed
qed

lemma lookup_None_iff:
  "bget_lookup bs d n xs = None \<longleftrightarrow> (\<forall>b\<in>set xs. \<not> (dev (bs ! b) = d \<and> blockno (bs ! b) = n))"
  by (induction xs) auto

text \<open>
  Claim C3. When the block is not cached in its home bucket and every buffer of the
  pool has a reference count that is not 0, \<open>bget\<close> does not return a buffer,
  whatever the locks; with the bucket locks free it panics with "bget: no buffers".
\<close>

theorem bget_exhausted:
  assumes miss: "bget_lookup (bufs s) d n (head s ! (unat n mod BUCKET_SIZE)) = None"
    and links: "\<forall>k<BUCKET_SIZE. \<forall>b\<in>set (head s ! k). b < length (bufs s)"
    and pinned: "\<forall>b<length (bufs s). refcnt (bufs s ! b) \<noteq> 0"
  shows "(\<forall>x. bget cpu pid t d n s \<noteq> Done x) \<and>
         ((\<forall>k<BUCKET_SIZE. lock s ! k = None) \<longrightarrow>
            bget cpu pid t d n s = Panic ''bget: no buffers'')"
proof -
  let ?cur = "unat n mod BUCKET_SIZE"
  have cur: "?cur < BUCKET_SIZE" by (simp add: BUCKET_SIZE_def)
  have p: "\<forall>k<BUCKET_SIZE. \<forall>b\<in>set (head s ! k). refcnt (bufs s ! b) \<noteq> 0"
    using links pinned by blast
  show ?thesis
  proof (intro conjI allI impI)
    fix x
    show "bget cpu pid t d n s \<noteq> Done x"
    proof (cases "lock s ! ?cur")
      case None
      then show ?thesis
        using miss evict_pinned_not_Done[of "s\<lparr>lock := (lock s)[?cur := Some cpu]\<rparr>"] p
        by (simp add: bget_def Let_def acquire_b_free)
    next
      case (Some c)
      then show ?thesis by (simp add: bget_def Let_def acquire_b_held)
    qed
  next
    assume free: "\<forall>k<BUCKET_SIZE. lock s ! k = None"
    let ?s1 = "s\<lparr>lock := (lock s)[?cur := Some cpu]\<rparr>"
    have "bget_evict cpu pid t d n ?cur [0..<BUCKET_SIZE] (None, 0) ?s1 = Panic ''bget: no buffers''"
      using p free by (intro evict_all_pinned) auto
    then show "bget cpu pid t d n s = Panic ''bget: no buffers''"
      using miss free cur by (simp add: bget_def Let_def acquire_b_free)
  qed
qed



text \<open>
  A candidate whose tick is 0 looks like no candidate (\<open>temp_tick == 0\<close>): the next
  buffer with reference count 0 replaces it, whatever its tick.
\<close>

lemma scan_tick_zero:
  "refcnt (bs ! a) = 0 \<Longrightarrow> used_tick (bs ! a) = 0 \<Longrightarrow> refcnt (bs ! b) = 0 \<Longrightarrow>
   bget_scan bs [a, b] (None, 0) = (Some b, used_tick (bs ! b))"
  by simp

lemma upd_buf_twice: "upd_buf b f (upd_buf b g s) = upd_buf b (\<lambda>x. f (g x)) s"
  by (cases "b < length (bufs s)") (simp_all add: upd_buf_def list_update_beyond)

lemma bufs_release_b [simp]: "bufs (release_b k s) = bufs s"
  by (simp add: release_b_def)

lemma sleeplock_recycled:
  "sleeplock (bufs (upd_buf v (recycle d n t) s) ! v) = sleeplock (bufs s ! v)"
  by (cases "v < length (bufs s)") (simp_all add: upd_buf_def recycle_def list_update_beyond)


lemma evict_Done:
  assumes "bget_evict cpu pid t d n cur is (None, 0) s = Done (s', v)"
  shows "\<exists>k<BUCKET_SIZE. v \<in> set (head s ! k) \<and> refcnt (bufs s ! v) = 0 \<and>
           sleeplock (bufs s ! v) = None \<and>
           s' = upd_buf v (\<lambda>x. x\<lparr>sleeplock := Some pid\<rparr>)
                  (release_b cur (upd_buf v (recycle d n t)
                     (s\<lparr>head := (if k = cur then head s
                                  else push_front cur v (unlink v (head s)))\<rparr>)))"
  using assms
proof (induction "is")
  case Nil
  then show ?case by simp
next
  case (Cons i "is")
  let ?k = "(cur + i) mod BUCKET_SIZE"
  have k: "?k < BUCKET_SIZE" by (simp add: BUCKET_SIZE_def)
  let ?acc = "bget_scan (bufs s) (head s ! ?k) (None, 0)"
  have found: "fst ?acc = Some w \<Longrightarrow> w \<in> set (head s ! ?k) \<and> refcnt (bufs s ! w) = 0" for w
    using scan_victim_free[of "bufs s" "head s ! ?k" "(None, 0)" w] by simp
  show ?case
  proof (cases "?k = cur")
    case True
    show ?thesis
    proof (cases "fst ?acc")
      case None
      then have "?acc = (None, 0)" by (rule scan_None_eq)
      then have "bget_evict cpu pid t d n cur is (None, 0) s = Done (s', v)"
        using Cons.prems True unfolding evict_home[OF True] by (simp add: Let_def)
      then show ?thesis by (rule Cons.IH)
    next
      case (Some w)
      then have r: "bind (acquiresleep pid w (release_b cur (upd_buf w (recycle d n t) s)))
            (\<lambda>s5. Done (s5, w)) = Done (s', v)"
        using Cons.prems True unfolding evict_home[OF True] by (simp add: Let_def)
      then have sl: "sleeplock (bufs (upd_buf w (recycle d n t) s) ! w) = None"
        by (auto simp: acquiresleep_def split: if_splits)
      then have "w = v \<and> s' = upd_buf w (\<lambda>x. x\<lparr>sleeplock := Some pid\<rparr>)
            (release_b cur (upd_buf w (recycle d n t) s))"
        using r by (auto simp: acquiresleep_def split: if_splits)
      then show ?thesis using found[OF Some] True k sl
        by (intro exI[of _ ?k]) (simp add: sleeplock_recycled)
    qed
  next
    case False
    show ?thesis
    proof (cases "lock s ! ?k")
      case None
      show ?thesis
      proof (cases "fst ?acc")
        case n: None
        then have "?acc = (None, 0)" by (rule scan_None_eq)
        then have "bget_evict cpu pid t d n cur is (None, 0) s = Done (s', v)"
          using Cons.prems unfolding evict_foreign[OF False None] by (simp add: Let_def)
        then show ?thesis by (rule Cons.IH)
      next
        case (Some w)
        let ?s2 = "s\<lparr>head := push_front cur w (unlink w (head s))\<rparr>"
        have r: "bind (acquiresleep pid w (release_b cur (upd_buf w (recycle d n t) ?s2)))
            (\<lambda>s5. Done (s5, w)) = Done (s', v)"
          using Cons.prems Some unfolding evict_foreign[OF False None] by (simp add: Let_def)
        then have sl: "sleeplock (bufs (upd_buf w (recycle d n t) ?s2) ! w) = None"
          by (auto simp: acquiresleep_def split: if_splits)
        then have "w = v \<and> s' = upd_buf w (\<lambda>x. x\<lparr>sleeplock := Some pid\<rparr>)
            (release_b cur (upd_buf w (recycle d n t) ?s2))"
          using r by (auto simp: acquiresleep_def split: if_splits)
        moreover have "sleeplock (bufs s ! w) = None"
          using sl sleeplock_recycled[of w d n t ?s2] by simp
        ultimately show ?thesis using found[OF Some] False k
          by (intro exI[of _ ?k]) simp
      qed
    next
      case (Some c)
      show ?thesis
      proof (cases "c = cpu")
        case True
        then have 2: "lock s ! ?k = Some cpu" using Some by simp
        have "bget_evict cpu pid t d n cur is (None, 0) s = Done (s', v)"
          using Cons.prems unfolding evict_skip[OF False 2] .
        then show ?thesis by (rule Cons.IH)
      next
        case ne: False
        show ?thesis using Cons.prems unfolding evict_spin[OF False Some ne] by simp
      qed
    qed
  qed
qed

lemma release_b_head_acquired:
  "lock s ! k = None \<Longrightarrow>
   release_b k (upd_buf v f (s\<lparr>lock := (lock s)[k := Some cpu], head := h\<rparr>)) = upd_buf v f (s\<lparr>head := h\<rparr>)"
  by (simp add: release_b_def upd_buf_def release_acquired)

lemma release_b_upd_acquired:
  "lock s ! k = None \<Longrightarrow>
   release_b k (upd_buf v f (s\<lparr>lock := (lock s)[k := Some cpu]\<rparr>)) = upd_buf v f s"
  by (simp add: release_b_def upd_buf_def release_acquired)

lemma bget_Done:
  assumes "bget cpu pid t d n s = Done (s', v)"
  shows "(bget_lookup (bufs s) d n (head s ! (unat n mod BUCKET_SIZE)) = Some v \<and>
            sleeplock (bufs s ! v) = None \<and> s' = cached pid t v s)
       \<or> (bget_lookup (bufs s) d n (head s ! (unat n mod BUCKET_SIZE)) = None \<and>
            (\<exists>k<BUCKET_SIZE. v \<in> set (head s ! k) \<and> refcnt (bufs s ! v) = 0 \<and>
               sleeplock (bufs s ! v) = None \<and> s' = evicted pid t d n k v s))"
proof -
  let ?cur = "unat n mod BUCKET_SIZE"
  let ?s1 = "s\<lparr>lock := (lock s)[?cur := Some cpu]\<rparr>"
  have fr: "lock s ! ?cur = None"
    using assms by (cases "lock s ! ?cur") (simp_all add: bget_def Let_def acquire_b_held)
  show ?thesis
  proof (cases "bget_lookup (bufs s) d n (head s ! ?cur)")
    case None
    then have "bget_evict cpu pid t d n ?cur [0..<BUCKET_SIZE] (None, 0) ?s1 = Done (s', v)"
      using assms fr by (simp add: bget_def Let_def acquire_b_free)
    from evict_Done[OF this] obtain k where k: "k < BUCKET_SIZE" "v \<in> set (head s ! k)"
      "refcnt (bufs s ! v) = 0" "sleeplock (bufs s ! v) = None"
      and s': "s' = upd_buf v (\<lambda>x. x\<lparr>sleeplock := Some pid\<rparr>)
                  (release_b ?cur (upd_buf v (recycle d n t)
                     (?s1\<lparr>head := (if k = ?cur then head ?s1
                                  else push_front ?cur v (unlink v (head ?s1)))\<rparr>)))"
      by auto
    have "s' = evicted pid t d n k v s"
      unfolding s' evicted_def using fr
      by (simp add: release_b_head_acquired upd_buf_twice)
    then show ?thesis using None k by blast
  next
    case (Some b)
    let ?s2 = "upd_buf b (\<lambda>x. x\<lparr>refcnt := refcnt x + 1, used_tick := t\<rparr>) s"
    have r: "bind (acquiresleep pid b ?s2) (\<lambda>s4. Done (s4, b)) = Done (s', v)"
      using assms fr Some
      by (simp add: bget_def Let_def acquire_b_free release_b_upd_acquired)
    then have sl: "sleeplock (bufs ?s2 ! b) = None"
      by (auto simp: acquiresleep_def split: if_splits)
    then have e: "b = v \<and> s' = upd_buf b (\<lambda>x. x\<lparr>sleeplock := Some pid\<rparr>) ?s2"
      using r by (auto simp: acquiresleep_def split: if_splits)
    have "sleeplock (bufs s ! b) = None"
      using sl by (cases "b < length (bufs s)") (simp_all add: upd_buf_def list_update_beyond)
    then show ?thesis using Some e by (simp add: cached_def upd_buf_twice)
  qed
qed






section \<open>The lists that \<open>binit\<close> builds\<close>

lemma binit_lists:
  "length (fold (\<lambda>i hs. push_front (i mod BUCKET_SIZE) i hs) [0..<N] (replicate BUCKET_SIZE [])) = BUCKET_SIZE \<and>
   (\<forall>k<BUCKET_SIZE.
      set (fold (\<lambda>i hs. push_front (i mod BUCKET_SIZE) i hs) [0..<N] (replicate BUCKET_SIZE []) ! k)
        = {i. i < N \<and> i mod BUCKET_SIZE = k} \<and>
      distinct (fold (\<lambda>i hs. push_front (i mod BUCKET_SIZE) i hs) [0..<N] (replicate BUCKET_SIZE []) ! k))"
proof (induction N)
  case 0
  show ?case by simp
next
  case (Suc N)
  define hs where "hs = fold (\<lambda>i hs. push_front (i mod BUCKET_SIZE) i hs) [0..<N] (replicate BUCKET_SIZE [])"
  have f: "fold (\<lambda>i hs. push_front (i mod BUCKET_SIZE) i hs) [0..<Suc N] (replicate BUCKET_SIZE [])
       = hs[N mod BUCKET_SIZE := N # hs ! (N mod BUCKET_SIZE)]"
    by (simp add: hs_def push_front_def)
  have m: "N mod BUCKET_SIZE < BUCKET_SIZE" by (simp add: BUCKET_SIZE_def)
  have ih: "length hs = BUCKET_SIZE"
    "\<And>k. k < BUCKET_SIZE \<Longrightarrow> set (hs ! k) = {i. i < N \<and> i mod BUCKET_SIZE = k}"
    "\<And>k. k < BUCKET_SIZE \<Longrightarrow> distinct (hs ! k)"
    using Suc unfolding hs_def by simp_all
  show ?case
    unfolding f using ih m
    by (auto simp: nth_list_update less_Suc_eq)
qed

lemma wf_lists_binit: "wf_lists (binit N B d)"
proof -
  define hs where "hs = fold (\<lambda>i hs. push_front (i mod BUCKET_SIZE) i hs) [0..<N] (replicate BUCKET_SIZE [])"
  have ih: "length hs = BUCKET_SIZE"
    "\<And>k. k < BUCKET_SIZE \<Longrightarrow> set (hs ! k) = {i. i < N \<and> i mod BUCKET_SIZE = k}"
    "\<And>k. k < BUCKET_SIZE \<Longrightarrow> distinct (hs ! k)"
    using binit_lists[of N] unfolding hs_def by simp_all
  have h: "head (binit N B d) = hs" "length (bufs (binit N B d)) = N"
    by (simp_all add: binit_def hs_def)
  have cover: "b < N \<longleftrightarrow> (\<exists>k<BUCKET_SIZE. b \<in> set (hs ! k))" for b
  proof
    assume "b < N"
    moreover have "b mod BUCKET_SIZE < BUCKET_SIZE" by (simp add: BUCKET_SIZE_def)
    ultimately show "\<exists>k<BUCKET_SIZE. b \<in> set (hs ! k)"
      using ih(2)[of "b mod BUCKET_SIZE"] by (intro exI[of _ "b mod BUCKET_SIZE"]) simp
  next
    assume "\<exists>k<BUCKET_SIZE. b \<in> set (hs ! k)"
    then show "b < N" using ih(2) by auto
  qed
  show ?thesis
    unfolding wf_lists_def h using ih cover by auto
qed

lemma wf_lists_links:
  "wf_lists s \<Longrightarrow> \<forall>k<BUCKET_SIZE. \<forall>b\<in>set (head s ! k). b < length (bufs s)"
  unfolding wf_lists_def by blast

section \<open>The claims on concrete states\<close>


theorem kfree_spec_witness:
  "(0x80021000 :: addr) mod 4096 = 0 \<and> (0x80020000 :: addr) \<le> 0x80021000 \<and>
   (0x80021000 :: addr) < 0x88000000 \<and> locks kmem_none ! 1 = None \<and>
   1 < length (freelist_CPU kmem_none) \<and>
   (\<exists>s'. kfree 0x80020000 0x88000000 1 0x80021000 kmem_none = Done s' \<and>
      freelist_CPU s' ! 1 = 0x80021000 \<and> load64 (mem s') 0x80021000 = 0 \<and>
      mem s' 0x80021008 = 1 \<and> mem s' 0x80021FFF = 1 \<and> locks s' = locks kmem_none)"
proof -
  have h: "(0x80021000 :: addr) mod 4096 = 0 \<and> (0x80020000 :: addr) \<le> 0x80021000 \<and>
   (0x80021000 :: addr) < 0x88000000 \<and> locks kmem_none ! 1 = None \<and>
   1 < length (freelist_CPU kmem_none)"
    by (simp add: kmem_none_def)
  have u: "unat (0x80021008 - 0x80021000 :: addr) = 8" "unat (0x80021FFF - 0x80021000 :: addr) = 4095"
    by simp_all
  have f: "freelist_CPU kmem_none ! 1 = 0" by (simp add: kmem_none_def)
  from kfree_spec[where e="0x80020000" and P="0x88000000" and cpu=1 and pa="0x80021000"
      and s=kmem_none] h
  obtain s' where s': "kfree 0x80020000 0x88000000 1 0x80021000 kmem_none = Done s'"
    "\<forall>x. 8 \<le> unat (x - 0x80021000) \<and> unat (x - 0x80021000) < 4096 \<longrightarrow> mem s' x = 1"
    "freelist_CPU s' ! 1 = 0x80021000"
    "load64 (mem s') 0x80021000 = freelist_CPU kmem_none ! 1"
    "locks s' = locks kmem_none"
    by blast
  have "mem s' 0x80021008 = 1" "mem s' 0x80021FFF = 1"
    using s'(2) u by simp_all
  then show ?thesis using h s' f by simp
qed


lemma bc_held_simps:
  "lock bc_held = replicate 13 None" "length (bufs bc_held) = 30"
  "bufs bc_held ! 0 = (zero_buf 16)\<lparr>sleeplock := Some 1, refcnt := 1\<rparr>"
  by (simp_all add: bc_held_def binit_def upd_buf_def BUCKET_SIZE_def)

theorem bwrite_spec_witness:
  "holdingsleep 1 0 bc_held \<and> \<not> holdingsleep 2 0 bc_held \<and>
   bwrite 2 0 bc_held = Panic ''bwrite'' \<and>
   (\<exists>s'. bwrite 1 0 bc_held = Done s' \<and> bufs s' = bufs bc_held \<and>
      disk s' (0, 0) = replicate 16 0)"
proof -
  have h: "holdingsleep 1 0 bc_held \<and> \<not> holdingsleep 2 0 bc_held"
    by (simp add: holdingsleep_def bc_held_simps)
  have z: "dev (bufs bc_held ! 0) = 0" "blockno (bufs bc_held ! 0) = 0"
    "data (bufs bc_held ! 0) = replicate 16 0"
    by (simp_all add: bc_held_simps zero_buf_def)
  show ?thesis
    using h bwrite_spec[of 1 0 bc_held] bwrite_spec[of 2 0 bc_held] z by auto
qed

theorem pin_unpin_spec_witness:
  "0 < length (bufs bc_held) \<and> lock bc_held ! home 0 bc_held = None \<and>
   run_pins 0 [Pin 0, Pin 1, Unpin 0, Pin 2, Unpin 2, Unpin 1] bc_held = Done bc_held \<and>
   (\<exists>s'. bpin 3 0 bc_held = Done s' \<and> refcnt (bufs s' ! 0) = 2)"
proof -
  have h: "0 < length (bufs bc_held) \<and> lock bc_held ! home 0 bc_held = None"
    by (simp add: bc_held_simps home_def zero_buf_def BUCKET_SIZE_def)
  have c: "length (filter is_pin [Pin 0, Pin 1, Unpin 0, Pin 2, Unpin 2, Unpin 1]) =
           length (filter (\<lambda>c. \<not> is_pin c) [Pin 0, Pin 1, Unpin 0, Pin 2, Unpin 2, Unpin 1])"
    by simp
  have "run_pins 0 [Pin 0, Pin 1, Unpin 0, Pin 2, Unpin 2, Unpin 1] bc_held = Done bc_held"
    using pin_unpin_spec[where b=0 and s=bc_held and cs="[Pin 0, Pin 1, Unpin 0, Pin 2, Unpin 2, Unpin 1]"] h c
    by blast
  moreover have "bpin 3 0 bc_held = Done (upd_buf 0 (\<lambda>x. x\<lparr>refcnt := refcnt x + 1\<rparr>) bc_held)"
    using pin_unpin_spec[where b=0 and s=bc_held and cpu=3] h by blast
  ultimately show ?thesis using h
    by (simp add: upd_buf_def bc_held_simps)
qed

lemma head_binit_30:
  "head (binit 30 B d) = [[26,13,0],[27,14,1],[28,15,2],[29,16,3],[17,4],[18,5],[19,6],[20,7],
     [21,8],[22,9],[23,10],[24,11],[25,12]]"
  by code_simp

theorem brelse_spec_witness:
  "holdingsleep 1 0 bc_held \<and> \<not> holdingsleep 2 0 bc_held \<and> 0 < length (bufs bc_held) \<and>
   lock bc_held ! home 0 bc_held = None \<and>
   brelse 0 2 7 0 bc_held = Panic ''brelse'' \<and>
   (\<exists>s'. brelse 0 1 7 0 bc_held = Done s' \<and> refcnt (bufs s' ! 0) = 0 \<and>
      used_tick (bufs s' ! 0) = 7 \<and> sleeplock (bufs s' ! 0) = None \<and>
      head bc_held ! 0 = [26, 13, 0] \<and> head s' ! 0 = [0, 26, 13])"
proof -
  have h: "holdingsleep 1 0 bc_held \<and> \<not> holdingsleep 2 0 bc_held \<and> 0 < length (bufs bc_held) \<and>
      lock bc_held ! home 0 bc_held = None"
    by (simp add: holdingsleep_def bc_held_simps home_def zero_buf_def BUCKET_SIZE_def)
  have hm: "home 0 bc_held = 0"
    by (simp add: bc_held_simps home_def zero_buf_def)
  have hd: "head bc_held = head (binit 30 16 zero_disk)"
    by (simp add: bc_held_def upd_buf_def)
  have l: "head bc_held ! 0 = [26, 13, 0]" "home 0 bc_held < length (head bc_held)"
    unfolding hd hm head_binit_30 by simp_all
  have p: "brelse 0 2 7 0 bc_held = Panic ''brelse''"
    using brelse_spec[of 2 0 bc_held 0 7] h by blast
  from brelse_spec[of 1 0 bc_held 0 7] h obtain s' where
    s': "brelse 0 1 7 0 bc_held = Done s'"
      "bufs s' = (bufs bc_held)[0 := (bufs bc_held ! 0)\<lparr>sleeplock := None,
                      refcnt := refcnt (bufs bc_held ! 0) - 1, used_tick := 7\<rparr>]"
      "refcnt (bufs s' ! 0) = 0 \<and> home 0 bc_held < length (head bc_held) \<longrightarrow>
            head s' ! home 0 bc_held = 0 # remove1 0 (head bc_held ! home 0 bc_held)"
    by blast
  have b: "refcnt (bufs s' ! 0) = 0" "used_tick (bufs s' ! 0) = 7" "sleeplock (bufs s' ! 0) = None"
    unfolding s'(2) by (simp_all add: bc_held_simps zero_buf_def)
  have "head s' ! 0 = [0, 26, 13]"
    using s'(3) b(1) l hm by simp
  then show ?thesis using h p s'(1) b l by simp
qed

lemma links_bc_pinned: "\<forall>k<BUCKET_SIZE. \<forall>b\<in>set (head bc_pinned ! k). b < length (bufs bc_pinned)"
proof -
  have "head bc_pinned = head (binit 30 16 zero_disk)"
    "length (bufs bc_pinned) = length (bufs (binit 30 16 zero_disk))"
    by (simp_all add: bc_pinned_def binit_def)
  then show ?thesis
    using wf_lists_links[OF wf_lists_binit[of 30 16 zero_disk]] by simp
qed

theorem bget_exhausted_witness:
  "bget_lookup (bufs bc_pinned) 1 5 (head bc_pinned ! (unat (5 :: 32 word) mod BUCKET_SIZE)) = None \<and>
   list_all (list_all (\<lambda>b. b < length (bufs bc_pinned))) (head bc_pinned) \<and>
   list_all (\<lambda>x. refcnt x \<noteq> 0) (bufs bc_pinned) \<and>
   lock bc_pinned = replicate BUCKET_SIZE None \<and>
   bget 0 1 1 1 5 bc_pinned = Panic ''bget: no buffers''"
proof -
  have l: "\<forall>k<BUCKET_SIZE. \<forall>b\<in>set (head bc_pinned ! k). b < length (bufs bc_pinned)"
    by (rule links_bc_pinned)
  have p: "\<forall>b<length (bufs bc_pinned). refcnt (bufs bc_pinned ! b) \<noteq> 0"
    by (simp add: bc_pinned_def)
  have k: "unat (5 :: 32 word) mod BUCKET_SIZE < BUCKET_SIZE" by (simp add: BUCKET_SIZE_def)
  have "\<forall>b\<in>set (head bc_pinned ! (unat (5 :: 32 word) mod BUCKET_SIZE)).
          dev (bufs bc_pinned ! b) \<noteq> 1"
    using l k by (auto simp: bc_pinned_def zero_buf_def)
  then have m: "bget_lookup (bufs bc_pinned) 1 5
       (head bc_pinned ! (unat (5 :: 32 word) mod BUCKET_SIZE)) = None"
    by (simp add: lookup_None_iff)
  have f: "\<forall>k<BUCKET_SIZE. lock bc_pinned ! k = None"
    by (simp add: bc_pinned_def binit_def)
  have "bget 0 1 1 1 5 bc_pinned = Panic ''bget: no buffers''"
    using bget_exhausted[OF m l p, of 0 1 1] f by blast
  moreover have "list_all (list_all (\<lambda>b. b < length (bufs bc_pinned))) (head bc_pinned)"
    unfolding bc_pinned_def by (simp add: head_binit_30)
  moreover have "list_all (\<lambda>x. refcnt x \<noteq> 0) (bufs bc_pinned)"
    by (simp add: bc_pinned_def list_all_iff)
  moreover have "lock bc_pinned = replicate BUCKET_SIZE None"
    by (simp add: bc_pinned_def binit_def)
  ultimately show ?thesis using m by simp
qed


section \<open>A run that evicts a buffer that is not the oldest\<close>

lemma is_done_result: "is_done x \<Longrightarrow> x = Done (result_or d x)"
  by (cases x) simp_all








section \<open>The locks of the other buckets\<close>





section \<open>The state a call returns\<close>

lemma nth_bufs_upd_buf:
  "bufs (upd_buf b f s) ! a = (if a = b \<and> b < length (bufs s) then f (bufs s ! b) else bufs s ! a)"
  by (cases "b < length (bufs s)") (simp_all add: upd_buf_def nth_list_update list_update_beyond)

lemma head_upd_buf [simp]: "head (upd_buf b f s) = head s"
  by (simp add: upd_buf_def)

lemma bpin_Done: "bpin cpu b s = Done s' \<Longrightarrow> s' = upd_buf b (\<lambda>x. x\<lparr>refcnt := refcnt x + 1\<rparr>) s"
  by (cases "lock s ! home b s") (simp_all add: bpin_free, simp add: bpin_def home_def Let_def acquire_b_held)

lemma bunpin_Done: "bunpin cpu b s = Done s' \<Longrightarrow> s' = upd_buf b (\<lambda>x. x\<lparr>refcnt := refcnt x - 1\<rparr>) s"
  by (cases "lock s ! home b s") (simp_all add: bunpin_free, simp add: bunpin_def home_def Let_def acquire_b_held)

lemma bwrite_Done: "bwrite pid b s = Done s' \<Longrightarrow> bufs s' = bufs s \<and> head s' = head s"
  by (auto simp: bwrite_def virtio_disk_rw_def Let_def split: if_splits)

lemma brelse_Done:
  assumes "brelse cpu pid t b s = Done s'"
  shows "bufs s' = bufs (upd_buf b (\<lambda>x. x\<lparr>sleeplock := None, refcnt := refcnt x - 1, used_tick := t\<rparr>) s) \<and>
         (head s' = head s \<or> head s' = push_front (home b s) b (unlink b (head s)))"
proof -
  let ?s1 = "releasesleep b s"
  let ?k = "unat (blockno (bufs ?s1 ! b)) mod BUCKET_SIZE"
  have hk: "?k = home b s"
    by (simp add: home_def releasesleep_def nth_bufs_upd_buf)
  have hs: "holdingsleep pid b s" using assms by (auto simp: brelse_def split: if_splits)
  have fr: "lock ?s1 ! ?k = None"
    using assms hs by (cases "lock ?s1 ! ?k") (simp_all add: brelse_def Let_def acquire_b_held)
  show ?thesis
  proof (cases "b < length (bufs s)")
    case True
    then show ?thesis
      using assms hs fr hk
      by (auto simp: brelse_def Let_def acquire_b_free releasesleep_def release_b_def
            upd_buf_def split: if_splits)
  next
    case False
    then show ?thesis
      using assms hs fr hk
      by (auto simp: brelse_def Let_def acquire_b_free releasesleep_def release_b_def
            upd_buf_def list_update_beyond split: if_splits)
  qed
qed

lemma bread_Done:
  assumes "bread cpu pid t t2 d n s = Done (s', v)"
  shows "\<exists>s1 f. bget cpu pid t d n s = Done (s1, v) \<and> s' = upd_buf v f s1 \<and>
           (\<forall>x. ident (f x) = ident x)"
proof -
  obtain s1 v1 where g: "bget cpu pid t d n s = Done (s1, v1)"
    using assms by (cases "bget cpu pid t d n s") (auto simp: bread_def)
  have v: "v1 = v" using assms g by (simp add: bread_def Let_def)
  have "s' = upd_buf v (\<lambda>x. x\<lparr>used_tick := t2\<rparr>)
               (if \<not> valid (bufs s1 ! v)
                then upd_buf v (\<lambda>x. x\<lparr>valid := True\<rparr>)
                       (upd_buf v (\<lambda>y. y\<lparr>data := disk s1 (dev (bufs s1 ! v), blockno (bufs s1 ! v))\<rparr>) s1)
                else s1)"
    using assms g v by (auto simp: bread_def Let_def virtio_disk_rw_def)
  then have "s' = upd_buf v (if \<not> valid (bufs s1 ! v)
       then (\<lambda>x. x\<lparr>data := disk s1 (dev (bufs s1 ! v), blockno (bufs s1 ! v)), valid := True,
                    used_tick := t2\<rparr>)
       else (\<lambda>x. x\<lparr>used_tick := t2\<rparr>)) s1"
    by (simp add: upd_buf_twice)
  moreover have "\<forall>x. ident ((if \<not> valid (bufs s1 ! v)
       then (\<lambda>x. x\<lparr>data := disk s1 (dev (bufs s1 ! v), blockno (bufs s1 ! v)), valid := True,
                    used_tick := t2\<rparr>)
       else (\<lambda>x. x\<lparr>used_tick := t2\<rparr>)) x) = ident x"
    by (simp add: ident_def)
  ultimately show ?thesis using g v by blast
qed

section \<open>Referenced buffers keep their identity\<close>








lemma pin_eval:
  "is_done (exec (Bread 0 1 1 2 1 5) (binit 30 16 zero_disk)) \<and>
   is_done (exec (Bread 0 2 3 4 1 18) pin_bcache) \<and>
   length (bufs pin_bcache) = 30 \<and>
   refcnt (bufs pin_bcache ! 5) = 1 \<and> dev (bufs pin_bcache ! 5) = 1 \<and>
   blockno (bufs pin_bcache ! 5) = 5 \<and>
   dev (bufs pin_bcache2 ! 18) = 1 \<and> blockno (bufs pin_bcache2 ! 18) = 18"
  by code_simp


section \<open>One buffer for each block\<close>

lemma cache_inv_cong:
  "bufs s' = bufs s \<Longrightarrow> head s' = head s \<Longrightarrow> cache_inv s' = cache_inv s"
  by (simp add: cache_inv_def wf_lists_def homed_def unique_ids_def)

lemma ident_blockno: "ident x = ident y \<Longrightarrow> blockno x = blockno y"
  by (simp add: ident_def)

lemma cache_inv_upd_buf:
  assumes f: "\<forall>x. ident (f x) = ident x" and inv: "cache_inv s"
  shows "cache_inv (upd_buf b f s)"
proof -
  have i: "ident (bufs (upd_buf b f s) ! a) = ident (bufs s ! a)" for a
    using f by (simp add: nth_bufs_upd_buf)
  have n: "blockno (bufs (upd_buf b f s) ! a) = blockno (bufs s ! a)" for a
    using i[of a] by (rule ident_blockno)
  show ?thesis
    using inv unfolding cache_inv_def wf_lists_def homed_def unique_ids_def
    by (simp add: i n)
qed

text \<open>Moving a buffer of the pool to the head of a bucket's list.\<close>

lemma moved_sets:
  assumes "wf_lists s" "k < BUCKET_SIZE" "j < BUCKET_SIZE"
  shows "set (push_front k v (unlink v (head s)) ! j) =
           (if j = k then insert v (set (head s ! j)) else set (head s ! j) - {v})"
    and "distinct (push_front k v (unlink v (head s)) ! j)"
proof -
  have len: "length (head s) = BUCKET_SIZE" and d: "distinct (head s ! j)"
    using assms unfolding wf_lists_def by simp_all
  have nth: "push_front k v (unlink v (head s)) ! j =
        (if j = k then v # remove1 v (head s ! j) else remove1 v (head s ! j))"
    using assms len by (simp add: push_front_def unlink_def)
  show "set (push_front k v (unlink v (head s)) ! j) =
           (if j = k then insert v (set (head s ! j)) else set (head s ! j) - {v})"
    unfolding nth using d by (auto simp: set_remove1_eq)
  show "distinct (push_front k v (unlink v (head s)) ! j)"
    unfolding nth using d by (auto simp: set_remove1_eq)
qed

lemma wf_lists_moved:
  assumes w: "wf_lists s" and k: "k < BUCKET_SIZE" and v: "v < length (bufs s)"
    and b: "length bs = length (bufs s)"
  shows "wf_lists (s\<lparr>head := push_front k v (unlink v (head s)), bufs := bs\<rparr>)"
proof -
  let ?H = "push_front k v (unlink v (head s))"
  have len: "length (head s) = BUCKET_SIZE"
    and dj: "\<And>i j. i < BUCKET_SIZE \<Longrightarrow> j < BUCKET_SIZE \<Longrightarrow> i \<noteq> j \<Longrightarrow>
               set (head s ! i) \<inter> set (head s ! j) = {}"
    and cv: "\<And>a. a < length (bufs s) \<longleftrightarrow> (\<exists>j<BUCKET_SIZE. a \<in> set (head s ! j))"
    using w unfolding wf_lists_def by simp_all
  have S: "\<And>j. j < BUCKET_SIZE \<Longrightarrow> set (?H ! j) =
           (if j = k then insert v (set (head s ! j)) else set (head s ! j) - {v})"
    and D: "\<And>j. j < BUCKET_SIZE \<Longrightarrow> distinct (?H ! j)"
    using moved_sets[OF w k] by simp_all
  have 1: "length ?H = BUCKET_SIZE" using len by (simp add: push_front_def unlink_def)
  have 3: "set (?H ! i) \<inter> set (?H ! j) = {}"
    if "i < BUCKET_SIZE" "j < BUCKET_SIZE" "i \<noteq> j" for i j
    using that dj[of i j] by (auto simp: S)
  have 4: "a < length bs \<longleftrightarrow> (\<exists>j<BUCKET_SIZE. a \<in> set (?H ! j))" for a
  proof (cases "a = v")
    case True
    then show ?thesis using v b k S[OF k] by auto
  next
    case False
    have "(\<exists>j<BUCKET_SIZE. a \<in> set (?H ! j)) \<longleftrightarrow> (\<exists>j<BUCKET_SIZE. a \<in> set (head s ! j))"
      using False by (auto simp: S split: if_splits)
    then show ?thesis using cv[of a] b by simp
  qed
  show ?thesis
    unfolding wf_lists_def using 1 D 3 4 by simp
qed

lemma cache_inv_released:
  assumes inv: "cache_inv s" and b: "b < length (bufs s)"
  shows "cache_inv (s\<lparr>head := push_front (home b s) b (unlink b (head s))\<rparr>)"
proof -
  let ?k = "home b s"
  let ?s' = "s\<lparr>head := push_front ?k b (unlink b (head s))\<rparr>"
  have w: "wf_lists s" and h: "homed s" and u: "unique_ids s"
    using inv by (simp_all add: cache_inv_def)
  have k: "?k < BUCKET_SIZE" by (simp add: home_def BUCKET_SIZE_def)
  have S: "\<And>j. j < BUCKET_SIZE \<Longrightarrow> set (head ?s' ! j) =
           (if j = ?k then insert b (set (head s ! j)) else set (head s ! j) - {b})"
    using moved_sets(1)[OF w k] by simp
  have "wf_lists (s\<lparr>head := push_front ?k b (unlink b (head s)), bufs := bufs s\<rparr>)"
    using w k b by (intro wf_lists_moved) simp_all
  then have w': "wf_lists ?s'" by simp
  have h': "homed ?s'"
    unfolding homed_def
  proof (intro allI impI ballI)
    fix j a assume j: "j < BUCKET_SIZE" and a: "a \<in> set (head ?s' ! j)"
      and nz: "ident (bufs ?s' ! a) \<noteq> (0, 0)"
    show "unat (blockno (bufs ?s' ! a)) mod BUCKET_SIZE = j"
    proof (cases "a = b")
      case True
      then have "j = ?k" using a S[OF j] by (auto split: if_splits)
      then show ?thesis using True by (simp add: home_def)
    next
      case False
      then have "a \<in> set (head s ! j)" using a S[OF j] by (auto split: if_splits)
      then show ?thesis using h j nz unfolding homed_def by simp
    qed
  qed
  have u': "unique_ids ?s'" using u by (simp add: unique_ids_def)
  show ?thesis using w' h' u' by (simp add: cache_inv_def)
qed

lemma cache_inv_evicted:
  assumes inv: "cache_inv s" and k: "k < BUCKET_SIZE" and vk: "v \<in> set (head s ! k)"
    and miss: "bget_lookup (bufs s) d n (head s ! (unat n mod BUCKET_SIZE)) = None"
  shows "cache_inv (evicted pid t d n k v s)"
proof -
  let ?cur = "unat n mod BUCKET_SIZE"
  let ?H = "if k = ?cur then head s else push_front ?cur v (unlink v (head s))"
  let ?g = "\<lambda>x. (recycle d n t x)\<lparr>sleeplock := Some pid\<rparr>"
  let ?s' = "evicted pid t d n k v s"
  have w: "wf_lists s" and h: "homed s" and u: "unique_ids s"
    using inv by (simp_all add: cache_inv_def)
  have cur: "?cur < BUCKET_SIZE" by (simp add: BUCKET_SIZE_def)
  have v: "v < length (bufs s)" using wf_lists_links[OF w] k vk by blast
  have dj: "\<And>i j. i < BUCKET_SIZE \<Longrightarrow> j < BUCKET_SIZE \<Longrightarrow> i \<noteq> j \<Longrightarrow>
               set (head s ! i) \<inter> set (head s ! j) = {}"
    and cv: "\<And>a. a < length (bufs s) \<longleftrightarrow> (\<exists>j<BUCKET_SIZE. a \<in> set (head s ! j))"
    using w unfolding wf_lists_def by simp_all
  have hd': "head ?s' = ?H" and bf': "bufs ?s' = (bufs s)[v := ?g (bufs s ! v)]"
    by (simp_all add: evicted_def upd_buf_def)
  have id': "ident (bufs ?s' ! a) = (if a = v then (d, n) else ident (bufs s ! a))"
    if "a < length (bufs s)" for a
    using that by (simp add: bf' nth_list_update ident_def recycle_def)
  have bn': "blockno (bufs ?s' ! a) = (if a = v then n else blockno (bufs s ! a))"
    if "a < length (bufs s)" for a
    using that by (simp add: bf' nth_list_update recycle_def)
  have M: "a \<in> set (?H ! j) \<longleftrightarrow> (if a = v then j = ?cur else a \<in> set (head s ! j))"
    if j: "j < BUCKET_SIZE" for a j
  proof (cases "k = ?cur")
    case True
    show ?thesis
    proof (cases "a = v")
      case av: True
      have "v \<in> set (head s ! j) \<longleftrightarrow> j = k"
        using vk dj[OF j k] by auto
      then show ?thesis using True av by simp
    next
      case False
      then show ?thesis using True by simp
    qed
  next
    case False
    then show ?thesis using moved_sets(1)[OF w cur j, of v] by auto
  qed
  have w': "wf_lists ?s'"
  proof (cases "k = ?cur")
    case True
    have "head ?s' = head s" "length (bufs ?s') = length (bufs s)"
      using True hd' bf' by simp_all
    then show ?thesis using w by (simp add: wf_lists_def)
  next
    case False
    have "wf_lists (s\<lparr>head := push_front ?cur v (unlink v (head s)),
                      bufs := (bufs s)[v := ?g (bufs s ! v)]\<rparr>)"
      using w cur v by (intro wf_lists_moved) simp_all
    moreover have "?s' = s\<lparr>head := push_front ?cur v (unlink v (head s)),
                      bufs := (bufs s)[v := ?g (bufs s ! v)]\<rparr>"
      using False by (simp add: evicted_def upd_buf_def)
    ultimately show ?thesis by simp
  qed
  have h': "homed ?s'"
    unfolding homed_def
  proof (intro allI impI ballI)
    fix j a assume j: "j < BUCKET_SIZE" and a: "a \<in> set (head ?s' ! j)"
      and nz: "ident (bufs ?s' ! a) \<noteq> (0, 0)"
    have m: "if a = v then j = ?cur else a \<in> set (head s ! j)"
      using a M[OF j, of a] by (simp add: hd')
    show "unat (blockno (bufs ?s' ! a)) mod BUCKET_SIZE = j"
    proof (cases "a = v")
      case True
      then show ?thesis using m v by (simp add: bn')
    next
      case False
      then have aj: "a \<in> set (head s ! j)" using m by simp
      then have al: "a < length (bufs s)" using cv j by blast
      show ?thesis using h j aj nz al False unfolding homed_def by (simp add: id' bn')
    qed
  qed
  have fresh: "(d, n) = (0, 0)"
    if b: "b < length (bufs s)" and bi: "ident (bufs s ! b) = (d, n)" for b
  proof (rule ccontr)
    assume nz: "(d, n) \<noteq> (0, 0)"
    obtain j where j: "j < BUCKET_SIZE" and bj: "b \<in> set (head s ! j)"
      using cv[of b] b by blast
    have "unat (blockno (bufs s ! b)) mod BUCKET_SIZE = j"
      using h j bj nz bi unfolding homed_def by simp
    then have "j = ?cur" using bi by (simp add: ident_def)
    then have "b \<in> set (head s ! ?cur)" using bj by simp
    moreover have "dev (bufs s ! b) = d \<and> blockno (bufs s ! b) = n"
      using bi by (simp add: ident_def)
    ultimately show False using miss by (auto simp: lookup_None_iff)
  qed
  have u': "unique_ids ?s'"
    unfolding unique_ids_def
  proof (intro allI impI)
    fix a b assume a: "a < length (bufs ?s')" and b: "b < length (bufs ?s')"
      and e: "a \<noteq> b \<and> ident (bufs ?s' ! a) = ident (bufs ?s' ! b)"
    have al: "a < length (bufs s)" and bl: "b < length (bufs s)"
      using a b by (simp_all add: bf')
    consider "a = v" | "b = v" | "a \<noteq> v" "b \<noteq> v" by blast
    then show "ident (bufs ?s' ! a) = (0, 0)"
    proof cases
      case 1
      then have "ident (bufs s ! b) = (d, n)" using e al bl by (auto simp: id' split: if_splits)
      then have z: "(d, n) = (0, 0)" by (rule fresh[OF bl])
      have "ident (bufs ?s' ! a) = (d, n)" using 1 al by (simp add: id')
      then show ?thesis unfolding z .
    next
      case 2
      then have "ident (bufs s ! a) = (d, n)" using e al bl by (auto simp: id' split: if_splits)
      then have z: "(d, n) = (0, 0)" by (rule fresh[OF al])
      have "ident (bufs ?s' ! b) = (d, n)" using 2 bl by (simp add: id')
      then have "ident (bufs ?s' ! a) = (d, n)" using e by simp
      then show ?thesis unfolding z .
    next
      case 3
      then show ?thesis using u e al bl unfolding unique_ids_def by (auto simp: id' split: if_splits)
    qed
  qed
  show ?thesis using w' h' u' by (simp add: cache_inv_def)
qed

lemma cache_inv_binit: "cache_inv (binit N B d)"
proof -
  have w: "wf_lists (binit N B d)" by (rule wf_lists_binit)
  have z: "ident (bufs (binit N B d) ! b) = (0, 0)" if "b < length (bufs (binit N B d))" for b
    using that by (simp add: binit_def zero_buf_def ident_def)
  have "homed (binit N B d)"
    unfolding homed_def using wf_lists_links[OF w] z by blast
  moreover have "unique_ids (binit N B d)"
    unfolding unique_ids_def using z by blast
  ultimately show ?thesis using w by (simp add: cache_inv_def)
qed

lemma cache_inv_bget:
  assumes "bget cpu pid t d n s = Done (s1, v)" "cache_inv s"
  shows "cache_inv s1"
  using bget_Done[OF assms(1)]
proof (elim disjE conjE exE)
  assume "s1 = cached pid t v s"
  then show ?thesis
    unfolding cached_def using assms(2) by (simp add: cache_inv_upd_buf ident_def)
next
  fix k
  assume "bget_lookup (bufs s) d n (head s ! (unat n mod BUCKET_SIZE)) = None"
    "k < BUCKET_SIZE" "v \<in> set (head s ! k)" "s1 = evicted pid t d n k v s"
  then show ?thesis using assms(2) by (simp add: cache_inv_evicted)
qed

lemma cache_inv_exec:
  assumes e: "exec c s = Done s'" and ok: "arg_ok c s" and inv: "cache_inv s"
  shows "cache_inv s'"
proof (cases c)
  case (Bread cpu pid t t2 d n)
  then obtain v where "bread cpu pid t t2 d n s = Done (s', v)"
    using e by (cases "bread cpu pid t t2 d n s") auto
  from bread_Done[OF this] obtain s1 f where
    g: "bget cpu pid t d n s = Done (s1, v)" and s': "s' = upd_buf v f s1"
    and f: "\<forall>x. ident (f x) = ident x"
    by (elim exE conjE)
  show ?thesis
    unfolding s' using f cache_inv_bget[OF g inv] by (rule cache_inv_upd_buf)
next
  case (Bwrite pid b)
  then have "bufs s' = bufs s \<and> head s' = head s"
    using e bwrite_Done[of pid b s s'] by simp
  then show ?thesis using inv cache_inv_cong[of s' s] by simp
next
  case (Brelse cpu pid t b)
  let ?s2 = "upd_buf b (\<lambda>x. x\<lparr>sleeplock := None, refcnt := refcnt x - 1, used_tick := t\<rparr>) s"
  have b: "b < length (bufs s)" using ok Brelse by simp
  have i2: "cache_inv ?s2"
    using inv by (intro cache_inv_upd_buf) (simp_all add: ident_def)
  have h2: "home b ?s2 = home b s" "head ?s2 = head s" "b < length (bufs ?s2)"
    using b by (simp_all add: home_def nth_bufs_upd_buf)
  from brelse_Done[of cpu pid t b s s'] e Brelse
  have bf: "bufs s' = bufs ?s2"
    and hd: "head s' = head s \<or> head s' = push_front (home b s) b (unlink b (head s))"
    by simp_all
  from hd show ?thesis
  proof
    assume "head s' = head s"
    then show ?thesis using bf i2 cache_inv_cong[of s' ?s2] by simp
  next
    assume m: "head s' = push_front (home b s) b (unlink b (head s))"
    have "cache_inv (?s2\<lparr>head := push_front (home b ?s2) b (unlink b (head ?s2))\<rparr>)"
      using i2 h2(3) by (rule cache_inv_released)
    then show ?thesis
      using bf m h2 cache_inv_cong[of s' "?s2\<lparr>head := push_front (home b ?s2) b (unlink b (head ?s2))\<rparr>"]
      by simp
  qed
next
  case (Bpin cpu b)
  then have "s' = upd_buf b (\<lambda>x. x\<lparr>refcnt := refcnt x + 1\<rparr>) s"
    using e bpin_Done[of cpu b s s'] by simp
  then show ?thesis using inv by (simp add: cache_inv_upd_buf ident_def)
next
  case (Bunpin cpu b)
  then have "s' = upd_buf b (\<lambda>x. x\<lparr>refcnt := refcnt x - 1\<rparr>) s"
    using e bunpin_Done[of cpu b s s'] by simp
  then show ?thesis using inv by (simp add: cache_inv_upd_buf ident_def)
qed

lemma reachable_cache_inv: "reachable NBUF BSIZE s \<Longrightarrow> cache_inv s"
  by (induction rule: reachable.induct) (auto intro: cache_inv_binit cache_inv_exec)

text \<open>
  Claim C7, as amended. In every state reached from \<open>binit\<close> by calls of \<open>bread\<close>,
  \<open>bwrite\<close>, \<open>brelse\<close>, \<open>bpin\<close> and \<open>bunpin\<close> that return, two different buffers of
  the pool carry the same (device, block number) only when it is (0, 0), the pair
  that the zero-initialised pool gives every buffer before \<open>bget\<close> recycles it: every
  other pair is carried by at most one buffer.
\<close>

theorem one_buffer_per_block:
  assumes "reachable NBUF BSIZE s" and "a < length (bufs s)" and "b < length (bufs s)"
    and "dev (bufs s ! a) = dev (bufs s ! b)" and "blockno (bufs s ! a) = blockno (bufs s ! b)"
  shows "a = b \<or> (dev (bufs s ! a) = 0 \<and> blockno (bufs s ! a) = 0)"
proof -
  have "unique_ids s" using reachable_cache_inv[OF assms(1)] by (simp add: cache_inv_def)
  then show ?thesis
    using assms(2-5) unfolding unique_ids_def ident_def by auto
qed

theorem binit_duplicates:
  "(0 :: nat) \<noteq> 1 \<and> 0 < length (bufs (binit 30 16 zero_disk)) \<and>
   1 < length (bufs (binit 30 16 zero_disk)) \<and>
   dev (bufs (binit 30 16 zero_disk) ! 0) = dev (bufs (binit 30 16 zero_disk) ! 1) \<and>
   blockno (bufs (binit 30 16 zero_disk) ! 0) = blockno (bufs (binit 30 16 zero_disk) ! 1)"
  by (simp add: binit_def)

lemma pin_eval2:
  "length (bufs pin_bcache2) = 30 \<and>
   dev (bufs pin_bcache2 ! 0) = 0 \<and> blockno (bufs pin_bcache2 ! 0) = 0 \<and>
   dev (bufs pin_bcache2 ! 1) = 0 \<and> blockno (bufs pin_bcache2 ! 1) = 0"
  by code_simp

theorem one_buffer_per_block_witness:
  "reachable 30 16 pin_bcache2 \<and> 0 < length (bufs pin_bcache2) \<and> 1 < length (bufs pin_bcache2) \<and>
   dev (bufs pin_bcache2 ! 0) = dev (bufs pin_bcache2 ! 1) \<and>
   blockno (bufs pin_bcache2 ! 0) = blockno (bufs pin_bcache2 ! 1) \<and>
   (0 :: nat) \<noteq> 1 \<and> dev (bufs pin_bcache2 ! 0) = 0 \<and> blockno (bufs pin_bcache2 ! 0) = 0"
proof -
  have e1: "exec (Bread 0 1 1 2 1 5) (binit 30 16 zero_disk) = Done pin_bcache"
    unfolding pin_bcache_def using pin_eval by (intro is_done_result) simp
  have e2: "exec (Bread 0 2 3 4 1 18) pin_bcache = Done pin_bcache2"
    unfolding pin_bcache2_def using pin_eval by (intro is_done_result) simp
  have "reachable 30 16 pin_bcache"
    by (rule call[OF boot _ e1]) simp
  then have r: "reachable 30 16 pin_bcache2"
    by (rule call[OF _ _ e2]) simp
  have l: "0 < length (bufs pin_bcache2)" "1 < length (bufs pin_bcache2)"
    using pin_eval2 by simp_all
  have s: "dev (bufs pin_bcache2 ! 0) = dev (bufs pin_bcache2 ! 1)"
    "blockno (bufs pin_bcache2 ! 0) = blockno (bufs pin_bcache2 ! 1)"
    using pin_eval2 by simp_all
  have "0 = (1 :: nat) \<or> (dev (bufs pin_bcache2 ! 0) = 0 \<and> blockno (bufs pin_bcache2 ! 0) = 0)"
    by (rule one_buffer_per_block[OF r l s])
  then show ?thesis using r l s by simp
qed

end
